theory Spec2Isabelle
  imports Main "HOL-Library.Word" "HOL-Library.Signed_Division"
begin

unbundle bit_operations_syntax

section \<open>fp: find free ports\<close>

text \<open>
  A shallow embedding of \<^verbatim>\<open>fp.c\<close> (version 1.1.0).  The program talks to the kernel
  through \<^verbatim>\<open>socket\<close>, \<^verbatim>\<open>bind\<close>, \<^verbatim>\<open>getsockname\<close> and \<^verbatim>\<open>close\<close>; the
  kernel is modelled as an explicit state (the descriptor table, the history of system
  calls, the two output streams) that every call takes and returns.  What the kernel
  decides on its own (whether a call succeeds, which ephemeral port it hands out, what
  \<^verbatim>\<open>rand\<close> returns) is read from an environment of functions of that state, so that a
  theorem for all environments covers every behaviour of the operating system.

  C \<^verbatim>\<open>int\<close> values are modelled as \<open>int\<close>: every signed operation of the program works
  on values that \<^verbatim>\<open>main\<close> has validated, far from the 32-bit limits.  The one unsigned
  computation (the random offset) is written out modulo \<open>2 ^ 32\<close>, and the signed
  remainder \<^verbatim>\<open>%\<close> truncates towards zero (\<open>smod\<close>).
\<close>

subsection \<open>Constants and socket addresses\<close>

definition MAX_PORTS :: int where
  "MAX_PORTS = 1024"

datatype family = AF_INET | AF_INET6

datatype socktype = SOCK_STREAM | SOCK_DGRAM

datatype inaddr = ADDR_ZERO | INADDR_LOOPBACK | IN6ADDR_LOOPBACK

text \<open>
  \<^verbatim>\<open>struct sockaddr_storage\<close>, as far as the program fills it: the family, the address and
  the 16-bit port field, which holds the port in network byte order.  The family field is
  0 (\<open>None\<close>) after \<^verbatim>\<open>memset\<close>.
\<close>

record sockaddr =
  sa_family :: "family option"
  sa_addr :: inaddr
  sa_port :: "16 word"

text \<open>
  \<^verbatim>\<open>htons\<close> and \<^verbatim>\<open>ntohs\<close> on a little-endian host: the two bytes of the 16-bit value
  are exchanged.  \<^verbatim>\<open>htons(port)\<close> with an \<^verbatim>\<open>int\<close> argument first converts to
  \<^verbatim>\<open>uint16_t\<close> (\<open>word_of_int\<close>).
\<close>

definition htons :: "16 word \<Rightarrow> 16 word" where
  "htons w = (push_bit 8 w) OR (drop_bit 8 w)"

definition ntohs :: "16 word \<Rightarrow> 16 word" where
  "ntohs w = (push_bit 8 w) OR (drop_bit 8 w)"

definition zero_sockaddr :: sockaddr where
  "zero_sockaddr = \<lparr>sa_family = None, sa_addr = ADDR_ZERO, sa_port = 0\<rparr>"

text \<open>
  \<^verbatim>\<open>setup_addr(sa, salen, family, port)\<close> returns the address it builds and its length
  (\<^verbatim>\<open>sizeof(struct sockaddr_in)\<close> is 16, \<^verbatim>\<open>sizeof(struct sockaddr_in6)\<close> is 28).
\<close>

definition setup_addr :: "family \<Rightarrow> int \<Rightarrow> sockaddr \<times> nat" where
  "setup_addr fam port =
     (if fam = AF_INET
      then (zero_sockaddr\<lparr>sa_family := Some AF_INET, sa_addr := INADDR_LOOPBACK,
                          sa_port := htons (word_of_int port)\<rparr>, 16)
      else (zero_sockaddr\<lparr>sa_family := Some AF_INET6, sa_addr := IN6ADDR_LOOPBACK,
                          sa_port := htons (word_of_int port)\<rparr>, 28))"

definition read_port :: "sockaddr \<Rightarrow> family \<Rightarrow> int" where
  "read_port sa fam =
     (if fam = AF_INET then uint (ntohs (sa_port sa)) else uint (ntohs (sa_port sa)))"

subsection \<open>The kernel: descriptor table, history, output streams\<close>

text \<open>
  An open socket: its family and type and, once bound, its local address (with the port
  the kernel gave it, in network byte order).
\<close>

record sock =
  so_family :: family
  so_type :: socktype
  so_local :: "sockaddr option"

text \<open>Every system call leaves an event in the history, with its arguments and result.\<close>

datatype event =
    Socket family socktype int
  | Bind int sockaddr int
  | Getsockname int sockaddr int
  | Close int

datatype out_line = Port_line int | Version_line | Usage_text

datatype err_line =
    Perror string
  | Err_count
  | Err_range
  | Err_too_many int int
  | Err_usage
  | Err_no_free_port

record sys =
  fdt :: "(int \<times> sock) list"
  trace :: "event list"
  stdout :: "out_line list"
  stderr :: "err_line list"

text \<open>
  The environment: what the kernel and the C library decide.  Each answer may depend on
  the whole state, which contains the history, so two calls with the same arguments may
  be answered differently.
  \<^item> \<open>socket_ok\<close>: whether \<^verbatim>\<open>socket\<close> succeeds (when a descriptor is free);
  \<^item> \<open>nofile\<close>: the descriptor limit of the process;
  \<^item> \<open>bind_res\<close>: \<open>None\<close> when \<^verbatim>\<open>bind\<close> fails, \<open>Some p\<close> when it succeeds, \<open>p\<close>
    being the port the kernel picks if the request was for port 0;
  \<^item> \<open>getsockname_ok\<close>: whether \<^verbatim>\<open>getsockname\<close> succeeds;
  \<^item> \<open>rand_val\<close>: the value \<^verbatim>\<open>rand()\<close> returns.
\<close>

record env =
  socket_ok :: "sys \<Rightarrow> family \<Rightarrow> socktype \<Rightarrow> bool"
  nofile :: nat
  bind_res :: "sys \<Rightarrow> int \<Rightarrow> sockaddr \<Rightarrow> 16 word option"
  getsockname_ok :: "sys \<Rightarrow> int \<Rightarrow> bool"
  rand_val :: int

text \<open>
  The lowest descriptor from \<open>n\<close> on that is not open, looking at \<open>k\<close> candidates; \<open>None\<close>
  when all of them are open (\<^verbatim>\<open>EMFILE\<close>).
\<close>

fun first_free :: "int list \<Rightarrow> int \<Rightarrow> nat \<Rightarrow> int option" where
  "first_free used n 0 = None"
| "first_free used n (Suc k) =
     (if n \<in> set used then first_free used (n + 1) k else Some n)"

definition log_event :: "event \<Rightarrow> sys \<Rightarrow> sys" where
  "log_event e s = s\<lparr>trace := trace s @ [e]\<rparr>"

definition sys_socket :: "env \<Rightarrow> family \<Rightarrow> socktype \<Rightarrow> sys \<Rightarrow> int \<times> sys" where
  "sys_socket E fam ty s =
     (case (if socket_ok E s fam ty then first_free (map fst (fdt s)) 0 (nofile E) else None) of
        None \<Rightarrow> (- 1, log_event (Socket fam ty (- 1)) s)
      | Some fd \<Rightarrow>
          (fd, log_event (Socket fam ty fd)
                 (s\<lparr>fdt := fdt s @ [(fd, \<lparr>so_family = fam, so_type = ty, so_local = None\<rparr>)]\<rparr>)))"

text \<open>
  The local address a successful \<^verbatim>\<open>bind\<close> leaves on the socket: the requested one,
  with the kernel's port in place of port 0.
\<close>

definition local_addr :: "sockaddr \<Rightarrow> 16 word \<Rightarrow> sockaddr" where
  "local_addr sa p = (if sa_port sa = 0 then sa\<lparr>sa_port := htons p\<rparr> else sa)"

definition set_local :: "int \<Rightarrow> sockaddr \<Rightarrow> (int \<times> sock) list \<Rightarrow> (int \<times> sock) list" where
  "set_local fd a tbl = map (\<lambda>(f, so). if f = fd then (f, so\<lparr>so_local := Some a\<rparr>) else (f, so)) tbl"

definition sys_bind :: "env \<Rightarrow> int \<Rightarrow> sockaddr \<Rightarrow> sys \<Rightarrow> int \<times> sys" where
  "sys_bind E fd sa s =
     (case (if fd \<in> set (map fst (fdt s)) then bind_res E s fd sa else None) of
        None \<Rightarrow> (- 1, log_event (Bind fd sa (- 1)) s)
      | Some p \<Rightarrow>
          (0, log_event (Bind fd sa 0) (s\<lparr>fdt := set_local fd (local_addr sa p) (fdt s)\<rparr>)))"

text \<open>
  \<^verbatim>\<open>getsockname\<close> returns the local address of the socket (the zero address when it is
  not bound).
\<close>

definition sys_getsockname :: "env \<Rightarrow> int \<Rightarrow> sys \<Rightarrow> int \<times> sockaddr \<times> sys" where
  "sys_getsockname E fd s =
     (case (if getsockname_ok E s fd then map_of (fdt s) fd else None) of
        None \<Rightarrow> (- 1, zero_sockaddr, log_event (Getsockname fd zero_sockaddr (- 1)) s)
      | Some so \<Rightarrow>
          (let a = (case so_local so of None \<Rightarrow> zero_sockaddr | Some a \<Rightarrow> a)
           in (0, a, log_event (Getsockname fd a 0) s)))"

text \<open>\<^verbatim>\<open>close\<close> releases the descriptor; the program ignores its result.\<close>

definition sys_close :: "int \<Rightarrow> sys \<Rightarrow> sys" where
  "sys_close fd s = log_event (Close fd) (s\<lparr>fdt := filter (\<lambda>e. fst e \<noteq> fd) (fdt s)\<rparr>)"

definition perror :: "string \<Rightarrow> sys \<Rightarrow> sys" where
  "perror msg s = s\<lparr>stderr := stderr s @ [Perror msg]\<rparr>"

subsection \<open>Unconstrained batch acquisition\<close>

text \<open>
  The first loop of \<^verbatim>\<open>find_free_ports\<close>: open and bind \<open>count\<close> sockets.  The array
  \<^verbatim>\<open>fds\<close> is the list of the cells written so far (\<^verbatim>\<open>fds[i] = ...\<close> appends, \<open>i\<close> being
  its length).  The result is \<open>(True, count, fds, s)\<close> when the loop ends, and
  \<open>(False, i, fds, s)\<close> at a \<^verbatim>\<open>goto fail\<close>, \<open>i\<close> being the number of descriptors to
  clean up.
\<close>

function open_bind_loop ::
  "env \<Rightarrow> int \<Rightarrow> socktype \<Rightarrow> family \<Rightarrow> int \<Rightarrow> int list \<Rightarrow> sys \<Rightarrow> bool \<times> int \<times> int list \<times> sys" where
  "open_bind_loop E count ty fam i fds s =
     (if i < count then
        (let (fd, s1) = sys_socket E fam ty s in
         if fd < 0 then (False, i, fds @ [fd], perror ''fp: socket'' s1)
         else
           (let (sa, salen) = setup_addr fam 0;
                (r, s2) = sys_bind E fd sa s1 in
            if r < 0 then (False, i + 1, fds @ [fd], perror ''fp: bind'' s2)
            else open_bind_loop E count ty fam (i + 1) (fds @ [fd]) s2))
      else (True, i, fds, s))"
  by pat_completeness auto
termination
  by (relation "measure (\<lambda>(E, count, ty, fam, i, fds, s). nat (count - i))") auto

text \<open>
  The second loop: read the port of every socket.  \<open>ports\<close> is the list of the cells of
  the caller's array written so far.  \<open>False\<close> is \<^verbatim>\<open>goto fail_all\<close>.
\<close>

function read_loop ::
  "env \<Rightarrow> int \<Rightarrow> family \<Rightarrow> int \<Rightarrow> int list \<Rightarrow> int list \<Rightarrow> sys \<Rightarrow> bool \<times> int list \<times> sys" where
  "read_loop E count fam i fds ports s =
     (if i < count then
        (let (r, sa, s1) = sys_getsockname E (fds ! nat i) s in
         if r < 0 then (False, ports, perror ''fp: getsockname'' s1)
         else read_loop E count fam (i + 1) fds (ports @ [read_port sa fam]) s1)
      else (True, ports, s))"
  by pat_completeness auto
termination
  by (relation "measure (\<lambda>(E, count, fam, i, fds, ports, s). nat (count - i))") auto

text \<open>\<^verbatim>\<open>for (j = ...; j < n; j++) close(fds[j]);\<close>\<close>

function close_loop :: "int \<Rightarrow> int \<Rightarrow> int list \<Rightarrow> sys \<Rightarrow> sys" where
  "close_loop j n fds s =
     (if j < n then close_loop (j + 1) n fds (sys_close (fds ! nat j) s) else s)"
  by pat_completeness auto
termination
  by (relation "measure (\<lambda>(j, n, fds, s). nat (n - j))") auto

text \<open>
  \<^verbatim>\<open>find_free_ports\<close> returns its \<^verbatim>\<open>int\<close> result, the cells of \<^verbatim>\<open>ports\<close> it has
  written, and the state.  The array \<^verbatim>\<open>fds\<close> has \<^verbatim>\<open>MAX_PORTS\<close> cells: the function is
  defined for \<open>count \<le> MAX_PORTS\<close>, which \<^verbatim>\<open>main\<close> guarantees.
\<close>

definition find_free_ports ::
  "env \<Rightarrow> int \<Rightarrow> socktype \<Rightarrow> family \<Rightarrow> sys \<Rightarrow> int \<times> int list \<times> sys" where
  "find_free_ports E count ty fam s =
     (let (bound, i, fds, s1) = open_bind_loop E count ty fam 0 [] s in
      if \<not> bound then (- 1, [], close_loop 0 i fds s1)
      else
        (let (done, ports, s2) = read_loop E count fam 0 fds [] s1 in
         if \<not> done then (- 1, ports, close_loop 0 count fds s2)
         else (0, ports, close_loop 0 count fds s2)))"

subsection \<open>Range-constrained search\<close>

text \<open>Conversion of an \<^verbatim>\<open>int\<close> to \<^verbatim>\<open>unsigned\<close> and back, on 32 bits.\<close>

definition to_unsigned :: "int \<Rightarrow> int" where
  "to_unsigned x = x mod 2 ^ 32"

definition to_signed :: "int \<Rightarrow> int" where
  "to_signed u = (if u mod 2 ^ 32 < 2 ^ 31 then u mod 2 ^ 32 else u mod 2 ^ 32 - 2 ^ 32)"

text \<open>
  \<^verbatim>\<open>int start = lo + ((unsigned)rand() % range);\<close>: the remainder and the sum are
  unsigned (\<^verbatim>\<open>range\<close> and \<^verbatim>\<open>lo\<close> are converted), the result is converted back.
  The remainder is defined in C when \<^verbatim>\<open>range\<close> is not 0, which \<^verbatim>\<open>main\<close> guarantees.
\<close>

definition start_offset :: "int \<Rightarrow> int \<Rightarrow> int \<Rightarrow> int" where
  "start_offset r lo rng =
     to_signed (to_unsigned (to_unsigned lo + to_unsigned r mod to_unsigned rng))"

text \<open>\<^verbatim>\<open>int port = lo + ((start - lo + i) % range);\<close>\<close>

definition candidate :: "int \<Rightarrow> int \<Rightarrow> int \<Rightarrow> int \<Rightarrow> int" where
  "candidate lo rng start i = lo + ((start - lo + i) smod rng)"

text \<open>
  The scan.  \<open>None\<close> in the first component is the \<^verbatim>\<open>return -1\<close> inside the loop;
  \<open>Some found\<close> is the end of the loop.
\<close>

function range_loop ::
  "env \<Rightarrow> int \<Rightarrow> int \<Rightarrow> int \<Rightarrow> int \<Rightarrow> socktype \<Rightarrow> family \<Rightarrow> int \<Rightarrow> int \<Rightarrow> int list \<Rightarrow> sys
     \<Rightarrow> int option \<times> int list \<times> sys" where
  "range_loop E count lo rng start ty fam i found ports s =
     (if i < rng \<and> found < count then
        (let port = candidate lo rng start i;
             (fd, s1) = sys_socket E fam ty s in
         if fd < 0 then (None, ports, s1)
         else
           (let (sa, salen) = setup_addr fam port;
                (r, s2) = sys_bind E fd sa s1;
                (ports', found') = (if r = 0 then (ports @ [port], found + 1) else (ports, found));
                s3 = sys_close fd s2
            in range_loop E count lo rng start ty fam (i + 1) found' ports' s3))
      else (Some found, ports, s))"
  by pat_completeness auto
termination
  by (relation "measure (\<lambda>(E, count, lo, rng, start, ty, fam, i, found, ports, s). nat (rng - i))")
    auto

definition find_free_ports_range ::
  "env \<Rightarrow> int \<Rightarrow> int \<Rightarrow> int \<Rightarrow> socktype \<Rightarrow> family \<Rightarrow> sys \<Rightarrow> int \<times> int list \<times> sys" where
  "find_free_ports_range E count lo hi ty fam s =
     (let rng = hi - lo + 1;
          start = start_offset (rand_val E) lo rng;
          (res, ports, s1) = range_loop E count lo rng start ty fam 0 0 [] s
      in case res of
           None \<Rightarrow> (- 1, ports, s1)
         | Some found \<Rightarrow> (if found = count then 0 else - 1, ports, s1))"

subsection \<open>main\<close>

text \<open>
  The command line as \<^verbatim>\<open>getopt\<close> delivers it, one option after the other, the arguments
  already converted: \<open>Opt_n c\<close> carries \<^verbatim>\<open>atoi(optarg)\<close>; \<open>Opt_r (Some (lo, hi))\<close> is an
  argument from which \<^verbatim>\<open>sscanf(optarg, "%d:%d", ...)\<close> converts two numbers, \<open>Opt_r None\<close>
  one from which it does not; \<open>Opt_unknown\<close> is what \<^verbatim>\<open>getopt\<close> answers with \<^verbatim>\<open>'?'\<close>.
\<close>

datatype opt = Opt_n int | Opt_r "(int \<times> int) option" | Opt_u | Opt_6 | Opt_v | Opt_h | Opt_unknown

record config =
  c_count :: int
  c_socktype :: socktype
  c_family :: family
  c_range_lo :: int
  c_range_hi :: int
  c_use_range :: bool

definition initial_config :: config where
  "initial_config =
     \<lparr>c_count = 1, c_socktype = SOCK_STREAM, c_family = AF_INET,
      c_range_lo = 0, c_range_hi = 0, c_use_range = False\<rparr>"

definition eprint :: "err_line \<Rightarrow> sys \<Rightarrow> sys" where
  "eprint m s = s\<lparr>stderr := stderr s @ [m]\<rparr>"

definition oprint :: "out_line \<Rightarrow> sys \<Rightarrow> sys" where
  "oprint m s = s\<lparr>stdout := stdout s @ [m]\<rparr>"

text \<open>
  The option loop.  \<open>Inl code\<close> is a \<^verbatim>\<open>return code\<close> from inside the loop, \<open>Inr c\<close> the
  configuration when \<^verbatim>\<open>getopt\<close> returns \<open>-1\<close>.
\<close>

fun parse_opts :: "opt list \<Rightarrow> config \<Rightarrow> sys \<Rightarrow> (int + config) \<times> sys" where
  "parse_opts [] c s = (Inr c, s)"
| "parse_opts (Opt_n n # os) c s =
     (if n < 1 \<or> n > MAX_PORTS then (Inl 1, eprint Err_count s)
      else parse_opts os (c\<lparr>c_count := n\<rparr>) s)"
| "parse_opts (Opt_r None # os) c s = (Inl 1, eprint Err_range s)"
| "parse_opts (Opt_r (Some (lo, hi)) # os) c s =
     (if lo < 1 \<or> hi > 65535 \<or> lo > hi then (Inl 1, eprint Err_range s)
      else parse_opts os (c\<lparr>c_range_lo := lo, c_range_hi := hi, c_use_range := True\<rparr>) s)"
| "parse_opts (Opt_u # os) c s = parse_opts os (c\<lparr>c_socktype := SOCK_DGRAM\<rparr>) s"
| "parse_opts (Opt_6 # os) c s = parse_opts os (c\<lparr>c_family := AF_INET6\<rparr>) s"
| "parse_opts (Opt_v # os) c s = (Inl 0, oprint Version_line s)"
| "parse_opts (Opt_h # os) c s = (Inl 0, oprint Usage_text s)"
| "parse_opts (Opt_unknown # os) c s = (Inl 1, eprint Err_usage s)"

text \<open>\<^verbatim>\<open>for (int i = 0; i < count; i++) printf("%d\n", ports[i]);\<close>\<close>

function print_loop :: "int \<Rightarrow> int \<Rightarrow> int list \<Rightarrow> sys \<Rightarrow> sys" where
  "print_loop i n ports s =
     (if i < n then print_loop (i + 1) n ports (oprint (Port_line (ports ! nat i)) s) else s)"
  by pat_completeness auto
termination
  by (relation "measure (\<lambda>(i, n, ports, s). nat (n - i))") auto

definition main :: "env \<Rightarrow> opt list \<Rightarrow> sys \<Rightarrow> int \<times> sys" where
  "main E argv s =
     (case parse_opts argv initial_config s of
        (Inl code, s1) \<Rightarrow> (code, s1)
      | (Inr c, s1) \<Rightarrow>
          if c_use_range c \<and> c_count c > c_range_hi c - c_range_lo c + 1
          then (1, eprint (Err_too_many (c_count c) (c_range_hi c - c_range_lo c + 1)) s1)
          else
            (let (rc, ports, s2) =
                   (if c_use_range c
                    then find_free_ports_range E (c_count c) (c_range_lo c) (c_range_hi c)
                           (c_socktype c) (c_family c) s1
                    else find_free_ports E (c_count c) (c_socktype c) (c_family c) s1)
             in if rc < 0 then (1, eprint Err_no_free_port s2)
                else (0, print_loop 0 (c_count c) ports s2)))"

subsection \<open>Observing a run\<close>

text \<open>The events a run has added to the history.\<close>

definition new_events :: "sys \<Rightarrow> sys \<Rightarrow> event list" where
  "new_events s s' = drop (length (trace s)) (trace s')"

text \<open>The \<^verbatim>\<open>bind\<close> calls of a history, in order: the port asked for and the result.\<close>

fun bind_results :: "event list \<Rightarrow> (int \<times> int) list" where
  "bind_results [] = []"
| "bind_results (Bind fd sa r # es) = (uint (ntohs (sa_port sa)), r) # bind_results es"
| "bind_results (e # es) = bind_results es"

text \<open>The first \<open>k\<close> candidates of a scan.\<close>

definition cands :: "int \<Rightarrow> int \<Rightarrow> int \<Rightarrow> nat \<Rightarrow> int list" where
  "cands lo rng start k = map (\<lambda>j. candidate lo rng start (int j)) [0..<k]"

text \<open>The descriptors passed to \<^verbatim>\<open>getsockname\<close>, in order.\<close>

fun getsockname_calls :: "event list \<Rightarrow> int list" where
  "getsockname_calls [] = []"
| "getsockname_calls (Getsockname fd sa r # es) = fd # getsockname_calls es"
| "getsockname_calls (e # es) = getsockname_calls es"

text \<open>The descriptors that successful \<^verbatim>\<open>socket\<close> calls have returned, in order.\<close>

fun opened :: "event list \<Rightarrow> int list" where
  "opened [] = []"
| "opened (Socket fam ty fd # es) = (if 0 \<le> fd then fd # opened es else opened es)"
| "opened (e # es) = opened es"

text \<open>The number of successful \<^verbatim>\<open>bind\<close> calls.\<close>

fun ok_binds :: "event list \<Rightarrow> nat" where
  "ok_binds [] = 0"
| "ok_binds (Bind fd sa r # es) = (if r = 0 then Suc (ok_binds es) else ok_binds es)"
| "ok_binds (e # es) = ok_binds es"

text \<open>
  The successful \<^verbatim>\<open>getsockname\<close> calls, in order: the descriptor, and the port that
  \<^verbatim>\<open>read_port\<close> finds in the address returned.
\<close>

fun reads :: "family \<Rightarrow> event list \<Rightarrow> (int \<times> int) list" where
  "reads fam [] = []"
| "reads fam (Getsockname fd sa r # es) =
     (if r = 0 then (fd, read_port sa fam) # reads fam es else reads fam es)"
| "reads fam (e # es) = reads fam es"

text \<open>
  No \<^verbatim>\<open>getsockname\<close> call comes before \<open>k\<close> \<^verbatim>\<open>bind\<close> calls have succeeded
  (\<open>k\<close> counts the successful calls still awaited).
\<close>

fun reads_after_binds :: "nat \<Rightarrow> event list \<Rightarrow> bool" where
  "reads_after_binds k [] = True"
| "reads_after_binds k (Bind fd sa r # es) = reads_after_binds (if r = 0 then k - 1 else k) es"
| "reads_after_binds k (Getsockname fd sa r # es) = (k = 0 \<and> reads_after_binds k es)"
| "reads_after_binds k (e # es) = reads_after_binds k es"

text \<open>
  The descriptors a history leaves open, starting from the open descriptors \<open>L\<close>:
  a successful \<^verbatim>\<open>socket\<close> opens one, \<^verbatim>\<open>close\<close> releases one.
\<close>

fun step_open :: "event \<Rightarrow> int list \<Rightarrow> int list" where
  "step_open (Socket fam ty fd) L = (if 0 \<le> fd then L @ [fd] else L)"
| "step_open (Close fd) L = removeAll fd L"
| "step_open e L = L"

definition open_after :: "event list \<Rightarrow> int list \<Rightarrow> int list" where
  "open_after es L = fold step_open es L"

text \<open>The largest number of descriptors open at the same time along a history.\<close>

fun peak :: "event list \<Rightarrow> int list \<Rightarrow> nat" where
  "peak [] L = length L"
| "peak (e # es) L = max (length L) (peak es (step_open e L))"

text \<open>The results of the \<^verbatim>\<open>socket\<close> calls of a history, in order.\<close>

fun socket_calls :: "event list \<Rightarrow> int list" where
  "socket_calls [] = []"
| "socket_calls (Socket fam ty fd # es) = fd # socket_calls es"
| "socket_calls (e # es) = socket_calls es"

subsection \<open>Valid and invalid configurations\<close>

text \<open>The bounds that the option loop enforces on a configuration.\<close>

definition valid_config :: "config \<Rightarrow> bool" where
  "valid_config c \<longleftrightarrow>
     1 \<le> c_count c \<and> c_count c \<le> MAX_PORTS \<and>
     (c_use_range c \<longrightarrow> 1 \<le> c_range_lo c \<and> c_range_lo c \<le> c_range_hi c \<and> c_range_hi c \<le> 65535)"

text \<open>
  The options that carry an invalid count or range: a count outside \<open>[1, MAX_PORTS]\<close>, a
  range that is not two numbers, or one with \<open>lo < 1\<close>, \<open>hi > 65535\<close> or \<open>lo > hi\<close>.
\<close>

fun invalid_opt :: "opt \<Rightarrow> bool" where
  "invalid_opt (Opt_n n) = (n < 1 \<or> n > MAX_PORTS)"
| "invalid_opt (Opt_r None) = True"
| "invalid_opt (Opt_r (Some (lo, hi))) = (lo < 1 \<or> hi > 65535 \<or> lo > hi)"
| "invalid_opt x = False"

subsection \<open>The kernel's promise about ephemeral ports\<close>

text \<open>
  The ports held by the open sockets of a family and type that are bound to an address.
\<close>

definition held_ports :: "(int \<times> sock) list \<Rightarrow> family \<Rightarrow> socktype \<Rightarrow> inaddr \<Rightarrow> 16 word list" where
  "held_ports tbl fam ty addr =
     concat (map (\<lambda>(fd, so).
        case so_local so of
          None \<Rightarrow> []
        | Some a \<Rightarrow>
            if so_family so = fam \<and> so_type so = ty \<and> sa_addr a = addr
            then [ntohs (sa_port a)] else []) tbl)"

text \<open>
  The kernel never answers a \<^verbatim>\<open>bind\<close> to port 0 with port 0, nor with a port that an
  open socket of the same family and type holds on the same address.
\<close>

definition ephemeral_unique :: "env \<Rightarrow> bool" where
  "ephemeral_unique E \<longleftrightarrow>
     (\<forall>s fd sa so p.
        map_of (fdt s) fd = Some so \<longrightarrow> sa_port sa = 0 \<longrightarrow> bind_res E s fd sa = Some p \<longrightarrow>
        p \<noteq> 0 \<and> p \<notin> set (held_ports (fdt s) (so_family so) (so_type so) (sa_addr sa)))"

text \<open>The local port of a descriptor, 0 when it is not a bound socket.\<close>

definition port_of :: "(int \<times> sock) list \<Rightarrow> int \<Rightarrow> 16 word" where
  "port_of tbl fd =
     (case map_of tbl fd of
        None \<Rightarrow> 0
      | Some so \<Rightarrow> (case so_local so of None \<Rightarrow> 0 | Some a \<Rightarrow> ntohs (sa_port a)))"

subsection \<open>Concrete states and environments\<close>

text \<open>A process with one descriptor open, and nothing done yet.\<close>

definition sys0 :: sys where
  "sys0 = \<lparr>fdt = [(0, \<lparr>so_family = AF_INET, so_type = SOCK_STREAM, so_local = None\<rparr>)],
           trace = [], stdout = [], stderr = []\<rparr>"

text \<open>A machine on which port 8001 is taken and every other port is free.\<close>

definition env_busy_8001 :: env where
  "env_busy_8001 =
     \<lparr>socket_ok = (\<lambda>s fam ty. True), nofile = 16,
      bind_res = (\<lambda>s fd sa. if ntohs (sa_port sa) = 8001 then None else Some 0),
      getsockname_ok = (\<lambda>s fd. True), rand_val = 7\<rparr>"

text \<open>
  A kernel that proposes, for a \<^verbatim>\<open>bind\<close> to port 0, the port 32768 plus the number of
  open descriptors, and refuses when that port is 0 or taken; an exact port is granted
  when no open socket holds it.
\<close>

definition pick_port :: "sys \<Rightarrow> int \<Rightarrow> sockaddr \<Rightarrow> 16 word option" where
  "pick_port s fd sa =
     (case map_of (fdt s) fd of
        None \<Rightarrow> None
      | Some so \<Rightarrow>
          (let p = (if sa_port sa = 0 then 32768 + of_nat (length (fdt s)) else ntohs (sa_port sa))
           in if p = 0 \<or> p \<in> set (held_ports (fdt s) (so_family so) (so_type so) (sa_addr sa))
              then None else Some p))"

definition env_free :: env where
  "env_free =
     \<lparr>socket_ok = (\<lambda>s fam ty. True), nofile = 16, bind_res = pick_port,
      getsockname_ok = (\<lambda>s fd. True), rand_val = 7\<rparr>"

text \<open>The same machine, where the second \<^verbatim>\<open>getsockname\<close> of the process fails.\<close>

definition env_getsockname_fails :: env where
  "env_getsockname_fails =
     env_free\<lparr>getsockname_ok := (\<lambda>s fd. getsockname_calls (trace s) = [])\<rparr>"

text \<open>The same machine, with no descriptor left after the second one.\<close>

definition env_two_descriptors :: env where
  "env_two_descriptors = env_free\<lparr>nofile := 2\<rparr>"

text \<open>A machine on which no socket can be created.\<close>

definition env_no_socket :: env where
  "env_no_socket = env_free\<lparr>socket_ok := (\<lambda>s fam ty. False)\<rparr>"

text \<open>A machine on which every port is taken.\<close>

definition env_all_busy :: env where
  "env_all_busy = env_free\<lparr>bind_res := (\<lambda>s fd sa. None)\<rparr>"

text \<open>A machine on which only the first \<^verbatim>\<open>socket\<close> call of the process succeeds.\<close>

definition env_one_socket :: env where
  "env_one_socket = env_free\<lparr>socket_ok := (\<lambda>s fam ty. socket_calls (trace s) = [])\<rparr>"

section \<open>Properties\<close>

subsection \<open>System calls\<close>

declare range_loop.simps [simp del] open_bind_loop.simps [simp del] read_loop.simps [simp del]
  close_loop.simps [simp del] print_loop.simps [simp del]

lemma log_event_simps [simp]:
  "fdt (log_event e s) = fdt s"
  "trace (log_event e s) = trace s @ [e]"
  "stdout (log_event e s) = stdout s"
  "stderr (log_event e s) = stderr s"
  by (simp_all add: log_event_def)

lemma perror_simps [simp]:
  "fdt (perror m s) = fdt s"
  "trace (perror m s) = trace s"
  "stdout (perror m s) = stdout s"
  "stderr (perror m s) = stderr s @ [Perror m]"
  by (simp_all add: perror_def)

lemma eprint_simps [simp]:
  "fdt (eprint m s) = fdt s"
  "trace (eprint m s) = trace s"
  "stdout (eprint m s) = stdout s"
  "stderr (eprint m s) = stderr s @ [m]"
  by (simp_all add: eprint_def)

lemma oprint_simps [simp]:
  "fdt (oprint m s) = fdt s"
  "trace (oprint m s) = trace s"
  "stdout (oprint m s) = stdout s @ [m]"
  "stderr (oprint m s) = stderr s"
  by (simp_all add: oprint_def)

lemma sys_close_simps [simp]:
  "fdt (sys_close fd s) = filter (\<lambda>e. fst e \<noteq> fd) (fdt s)"
  "trace (sys_close fd s) = trace s @ [Close fd]"
  "stdout (sys_close fd s) = stdout s"
  "stderr (sys_close fd s) = stderr s"
  by (simp_all add: sys_close_def)

lemma first_free_fresh: "first_free used n k = Some fd \<Longrightarrow> n \<le> fd \<and> fd \<notin> set used"
  by (induction k arbitrary: n) (fastforce split: if_splits)+

lemma sys_socket_cases:
  assumes "sys_socket E fam ty s = (fd, s1)"
  obtains (fail) "fd = - 1" "s1 = log_event (Socket fam ty (- 1)) s"
  | (ok) "0 \<le> fd" "fd \<notin> fst ` set (fdt s)"
      "s1 = log_event (Socket fam ty fd)
              (s\<lparr>fdt := fdt s @ [(fd, \<lparr>so_family = fam, so_type = ty, so_local = None\<rparr>)]\<rparr>)"
  using assms first_free_fresh [of "map fst (fdt s)" 0 "nofile E"]
  by (auto simp: sys_socket_def split: option.splits if_splits)

lemma sys_bind_cases:
  assumes "sys_bind E fd sa s = (r, s2)"
  obtains (fail) "r = - 1" "s2 = log_event (Bind fd sa (- 1)) s"
  | (ok) p where "r = 0" "fd \<in> fst ` set (fdt s)" "bind_res E s fd sa = Some p"
      "s2 = log_event (Bind fd sa 0) (s\<lparr>fdt := set_local fd (local_addr sa p) (fdt s)\<rparr>)"
  using assms by (auto simp: sys_bind_def split: option.splits if_splits)

lemma sys_getsockname_cases:
  assumes "sys_getsockname E fd s = (r, sa, s1)"
  obtains (fail) "r = - 1" "sa = zero_sockaddr" "s1 = log_event (Getsockname fd zero_sockaddr (- 1)) s"
  | (ok) so where "r = 0" "map_of (fdt s) fd = Some so"
      "sa = (case so_local so of None \<Rightarrow> zero_sockaddr | Some a \<Rightarrow> a)"
      "s1 = log_event (Getsockname fd sa 0) s"
  using assms by (auto simp: sys_getsockname_def Let_def split: option.splits if_splits)

lemma sys_socket_trace: "sys_socket E fam ty s = (fd, s1) \<Longrightarrow> trace s1 = trace s @ [Socket fam ty fd]"
  by (erule sys_socket_cases) simp_all

lemma sys_bind_trace:
  "sys_bind E fd sa s = (r, s2) \<Longrightarrow> trace s2 = trace s @ [Bind fd sa r] \<and> (r = 0 \<or> r = - 1)"
  by (erule sys_bind_cases) simp_all

lemma ntohs_htons: "ntohs (htons w) = w"
  unfolding ntohs_def htons_def
  by (rule bit_word_eqI) (auto simp add: bit_simps)

lemma probe_port:
  assumes "0 \<le> port" "port \<le> 65535"
  shows "uint (ntohs (sa_port (fst (setup_addr fam port)))) = port"
proof -
  have "uint (word_of_int port :: 16 word) = port"
    using assms by (simp add: uint_word_of_int take_bit_eq_mod)
  then show ?thesis by (simp add: setup_addr_def zero_sockaddr_def ntohs_htons)
qed

subsection \<open>The scan loop\<close>

lemma range_loop_stop:
  "\<not> (i < rng \<and> found < count) \<Longrightarrow>
   range_loop E count lo rng start ty fam i found ports s = (Some found, ports, s)"
  by (subst range_loop.simps) auto

lemma range_loop_rule:
  assumes run: "range_loop E count lo rng start ty fam i found ports s = (res, ports', s')"
    and init: "I i found ports s"
    and step: "\<And>i found ports s fd s1 r s2.
        \<lbrakk>I i found ports s; i < rng; found < count; sys_socket E fam ty s = (fd, s1); 0 \<le> fd;
         sys_bind E fd (fst (setup_addr fam (candidate lo rng start i))) s1 = (r, s2)\<rbrakk>
        \<Longrightarrow> I (i + 1) (if r = 0 then found + 1 else found)
              (if r = 0 then ports @ [candidate lo rng start i] else ports) (sys_close fd s2)"
    and fail: "\<And>i found ports s fd s1.
        \<lbrakk>I i found ports s; i < rng; found < count; sys_socket E fam ty s = (fd, s1); fd < 0\<rbrakk>
        \<Longrightarrow> Q None ports s1"
    and stop: "\<And>i found ports s. \<lbrakk>I i found ports s; \<not> (i < rng \<and> found < count)\<rbrakk>
        \<Longrightarrow> Q (Some found) ports s"
  shows "Q res ports' s'"
  using run init
proof (induction "nat (rng - i)" arbitrary: i found ports s)
  case 0
  then have fin: "\<not> (i < rng \<and> found < count)" by simp
  from 0(2) range_loop_stop [OF fin] have "res = Some found" "ports' = ports" "s' = s"
    by simp_all
  with stop [OF 0(3) fin] show ?case by simp
next
  case (Suc n)
  show ?case
  proof (cases "i < rng \<and> found < count")
    case False
    from Suc.prems(1) range_loop_stop [OF False] have "res = Some found" "ports' = ports" "s' = s"
      by simp_all
    with stop [OF Suc.prems(2) False] show ?thesis by simp
  next
    case True
    obtain fd s1 where sock: "sys_socket E fam ty s = (fd, s1)" by (cases "sys_socket E fam ty s")
    show ?thesis
    proof (cases "fd < 0")
      case neg: True
      with True sock Suc.prems(1) have "res = None" "ports' = ports" "s' = s1"
        by (simp_all add: range_loop.simps [of E count lo rng start ty fam i] Let_def)
      with fail [OF Suc.prems(2) _ _ sock neg] True show ?thesis by simp
    next
      case nonneg: False
      let ?port = "candidate lo rng start i"
      obtain r s2 where bind: "sys_bind E fd (fst (setup_addr fam ?port)) s1 = (r, s2)"
        by (cases "sys_bind E fd (fst (setup_addr fam ?port)) s1")
      let ?found = "if r = 0 then found + 1 else found"
      let ?ports = "if r = 0 then ports @ [?port] else ports"
      have unfold: "range_loop E count lo rng start ty fam i found ports s =
          range_loop E count lo rng start ty fam (i + 1) ?found ?ports (sys_close fd s2)"
        using True sock nonneg bind
        by (simp add: range_loop.simps [of E count lo rng start ty fam i] Let_def case_prod_beta)
      have inv: "I (i + 1) ?found ?ports (sys_close fd s2)"
        using step [OF Suc.prems(2) _ _ sock _ bind] True nonneg by simp
      have "n = nat (rng - (i + 1))" using Suc.hyps(2) by simp
      from Suc.hyps(1) [OF this _ inv] Suc.prems(1) unfold show ?thesis by simp
    qed
  qed
qed


lemma start_offset_bounds:
  assumes "1 \<le> lo" "lo \<le> hi" "hi \<le> 65535"
  shows "lo \<le> start_offset r lo (hi - lo + 1) \<and> start_offset r lo (hi - lo + 1) \<le> hi"
proof -
  let ?n = "hi - lo + 1"
  have n: "0 < ?n" "?n < 2 ^ 32" using assms by auto
  have un: "to_unsigned ?n = ?n" using n by (simp add: to_unsigned_def)
  have ul: "to_unsigned lo = lo" using assms by (simp add: to_unsigned_def)
  define m where "m = to_unsigned r mod ?n"
  have m: "0 \<le> m" "m < ?n"
    unfolding m_def using n(1) pos_mod_sign [of ?n "to_unsigned r"] pos_mod_bound [of ?n "to_unsigned r"]
    by blast+
  have "lo + m < 2 ^ 31" "0 \<le> lo + m" using m assms by auto
  then have "to_signed (to_unsigned (lo + m)) = lo + m"
    by (simp add: to_signed_def to_unsigned_def)
  then have "start_offset r lo ?n = lo + m"
    by (simp add: start_offset_def un ul m_def)
  then show ?thesis using m by auto
qed

lemma candidate_mod:
  assumes "0 < rng" "lo \<le> start" "0 \<le> i"
  shows "candidate lo rng start i = lo + (start - lo + i) mod rng"
  using assms by (simp add: candidate_def smod_int_alt_def sgn_if)

lemma candidate_bounds:
  assumes "lo \<le> hi" "lo \<le> start" "0 \<le> i"
  shows "lo \<le> candidate lo (hi - lo + 1) start i" "candidate lo (hi - lo + 1) start i \<le> hi"
proof -
  have n: "0 < hi - lo + 1" using assms by simp
  have "0 \<le> (start - lo + i) mod (hi - lo + 1)" "(start - lo + i) mod (hi - lo + 1) < hi - lo + 1"
    using pos_mod_sign [OF n] pos_mod_bound [OF n] by blast+
  then show "lo \<le> candidate lo (hi - lo + 1) start i" "candidate lo (hi - lo + 1) start i \<le> hi"
    using candidate_mod [OF n assms(2,3)] by simp_all
qed

lemma candidate_inj:
  assumes "lo \<le> hi" "lo \<le> start" "0 \<le> i" "i \<le> hi - lo" "0 \<le> j" "j \<le> hi - lo"
    and eq: "candidate lo (hi - lo + 1) start i = candidate lo (hi - lo + 1) start j"
  shows "i = j"
proof -
  let ?n = "hi - lo + 1"
  have n: "0 < ?n" using assms by simp
  from eq have "(start - lo + i) mod ?n = (start - lo + j) mod ?n"
    using candidate_mod [OF n assms(2)] assms(3,5) by simp
  then have "i mod ?n = j mod ?n"
    by (metis add.commute add_diff_cancel_left' mod_diff_left_eq)
  then show ?thesis using assms by (simp)
qed


lemma candidate_bij:
  assumes "lo \<le> hi" "lo \<le> start"
  shows "bij_betw (candidate lo (hi - lo + 1) start) {0..hi - lo} {lo..hi}"
proof -
  let ?f = "candidate lo (hi - lo + 1) start"
  have inj: "inj_on ?f {0..hi - lo}"
    by (rule inj_onI) (use candidate_inj [OF assms] in auto)
  have sub: "?f ` {0..hi - lo} \<subseteq> {lo..hi}"
    using candidate_bounds [OF assms] by auto
  have "card (?f ` {0..hi - lo}) = card {lo..hi}"
    using card_image [OF inj] assms by simp
  with sub have "?f ` {0..hi - lo} = {lo..hi}"
    by (intro card_subset_eq) simp_all
  with inj show ?thesis by (simp add: bij_betw_def)
qed

lemma bind_results_append: "bind_results (es @ es') = bind_results es @ bind_results es'"
  by (induction es rule: bind_results.induct) simp_all

lemma scan_trace:
  assumes run: "range_loop E count lo (hi - lo + 1) start ty fam 0 0 [] s = (res, ports, s')"
    and range: "1 \<le> lo" "lo \<le> hi" "hi \<le> 65535" "lo \<le> start"
  shows "\<exists>es. trace s' = trace s @ es \<and>
           map fst (bind_results es) = cands lo (hi - lo + 1) start (length (bind_results es)) \<and>
           int (length (bind_results es)) \<le> hi - lo + 1 \<and>
           (res = Some count \<and> 0 < count \<longrightarrow>
              bind_results es \<noteq> [] \<and> snd (last (bind_results es)) = 0) \<and>
           (\<forall>f. res = Some f \<and> f \<noteq> count \<and> 0 \<le> count \<longrightarrow>
              int (length (bind_results es)) = hi - lo + 1)"
proof -
  let ?n = "hi - lo + 1"
  let ?I = "\<lambda>i found (ports :: int list) t. 0 \<le> i \<and> i \<le> ?n \<and> (0 \<le> count \<longrightarrow> found \<le> count) \<and>
      (\<exists>es. trace t = trace s @ es \<and> length (bind_results es) = nat i \<and>
           map fst (bind_results es) = cands lo ?n start (nat i) \<and>
           (0 < count \<longrightarrow> found < count \<or> (bind_results es \<noteq> [] \<and> snd (last (bind_results es)) = 0)))"
  let ?Q = "\<lambda>res (ports :: int list) t. \<exists>es. trace t = trace s @ es \<and>
           map fst (bind_results es) = cands lo ?n start (length (bind_results es)) \<and>
           int (length (bind_results es)) \<le> ?n \<and>
           (res = Some count \<and> 0 < count \<longrightarrow>
              bind_results es \<noteq> [] \<and> snd (last (bind_results es)) = 0) \<and>
           (\<forall>f. res = Some f \<and> f \<noteq> count \<and> 0 \<le> count \<longrightarrow>
              int (length (bind_results es)) = hi - lo + 1)"
  show ?thesis
  proof (rule range_loop_rule [where I = ?I and Q = ?Q, OF run])
    show "?I 0 0 [] s" using range by (simp add: cands_def)
  next
    fix i found ports t fd s1 r s2
    assume inv: "?I i found ports t" and i: "i < ?n" and f: "found < count"
      and sock: "sys_socket E fam ty t = (fd, s1)" and fd: "0 \<le> fd"
      and bind: "sys_bind E fd (fst (setup_addr fam (candidate lo ?n start i))) s1 = (r, s2)"
    from inv obtain es where es: "trace t = trace s @ es" "length (bind_results es) = nat i"
      "map fst (bind_results es) = cands lo ?n start (nat i)" and i0: "0 \<le> i"
      by blast
    let ?p = "candidate lo ?n start i"
    let ?es = "es @ [Socket fam ty fd, Bind fd (fst (setup_addr fam ?p)) r, Close fd]"
    have p: "lo \<le> ?p" "?p \<le> hi" using candidate_bounds [OF range(2,4) i0] by simp_all
    have br: "bind_results ?es = bind_results es @ [(?p, r)]"
      using probe_port [of ?p fam] p range by (simp add: bind_results_append)
    have tr: "trace (sys_close fd s2) = trace s @ ?es"
      using sys_socket_trace [OF sock] sys_bind_trace [OF bind] es(1) by simp
    have nat: "nat (i + 1) = Suc (nat i)" using i0 by simp
    have "map fst (bind_results ?es) = cands lo ?n start (nat (i + 1))"
      using es(3) i0 by (simp add: br nat cands_def)
    moreover have "length (bind_results ?es) = nat (i + 1)" using es(2) by (simp add: br nat)
    moreover have "0 < count \<longrightarrow> (if r = 0 then found + 1 else found) < count \<or>
        (bind_results ?es \<noteq> [] \<and> snd (last (bind_results ?es)) = 0)"
      using f by (simp add: br)
    ultimately have "\<exists>es. trace (sys_close fd s2) = trace s @ es \<and>
        length (bind_results es) = nat (i + 1) \<and>
        map fst (bind_results es) = cands lo ?n start (nat (i + 1)) \<and>
        (0 < count \<longrightarrow> (if r = 0 then found + 1 else found) < count \<or>
           (bind_results es \<noteq> [] \<and> snd (last (bind_results es)) = 0))"
      using tr by blast
    moreover have "0 \<le> i + 1" "i + 1 \<le> ?n" using i i0 by simp_all
    moreover have "0 \<le> count \<longrightarrow> (if r = 0 then found + 1 else found) \<le> count"
      using f by simp
    ultimately show "?I (i + 1) (if r = 0 then found + 1 else found)
        (if r = 0 then ports @ [?p] else ports) (sys_close fd s2)"
      by simp
  next
    fix i found ports t fd s1
    assume inv: "?I i found ports t" and sock: "sys_socket E fam ty t = (fd, s1)"
    from inv obtain es where es: "trace t = trace s @ es" "length (bind_results es) = nat i"
      "map fst (bind_results es) = cands lo ?n start (nat i)" and i0: "0 \<le> i" "i \<le> ?n"
      by blast
    let ?es = "es @ [Socket fam ty fd]"
    have tr: "trace s1 = trace s @ ?es"
      using sys_socket_trace [OF sock] es(1) by simp
    have br: "bind_results ?es = bind_results es"
      by (simp add: bind_results_append)
    have "map fst (bind_results ?es) = cands lo ?n start (length (bind_results ?es))"
      "int (length (bind_results ?es)) \<le> ?n"
      using es(2,3) i0 by (simp_all add: br)
    with tr have "\<exists>es. trace s1 = trace s @ es \<and>
        map fst (bind_results es) = cands lo ?n start (length (bind_results es)) \<and>
        int (length (bind_results es)) \<le> ?n" by blast
    then show "?Q None ports s1" by simp
  next
    fix i found ports t
    assume inv: "?I i found ports t" and stop: "\<not> (i < ?n \<and> found < count)"
    from inv obtain es where es: "trace t = trace s @ es" "length (bind_results es) = nat i"
      "map fst (bind_results es) = cands lo ?n start (nat i)"
      "0 < count \<longrightarrow> found < count \<or> (bind_results es \<noteq> [] \<and> snd (last (bind_results es)) = 0)"
      and i0: "0 \<le> i" "i \<le> ?n" and fc: "0 \<le> count \<longrightarrow> found \<le> count"
      by blast
    have "int (length (bind_results es)) \<le> ?n" using es(2) i0 by simp
    moreover have "Some found = Some count \<and> 0 < count \<longrightarrow>
        bind_results es \<noteq> [] \<and> snd (last (bind_results es)) = 0"
      using es(4) by auto
    moreover have "int (length (bind_results es)) = ?n" if "found \<noteq> count" "0 \<le> count"
    proof -
      from that fc have "found < count" by simp
      with stop i0 have "i = ?n" by simp
      with es(2) i0 show ?thesis by simp
    qed
    ultimately show "?Q (Some found) ports t" using es(1,2,3) by auto
  qed
qed



lemma set_cands_full:
  assumes "lo \<le> hi" "lo \<le> start"
  shows "set (cands lo (hi - lo + 1) start (nat (hi - lo + 1))) = {lo..hi} \<and>
         distinct (cands lo (hi - lo + 1) start (nat (hi - lo + 1)))"
proof -
  let ?n = "hi - lo + 1"
  let ?c = "candidate lo ?n start"
  have bij: "bij_betw ?c {0..hi - lo} {lo..hi}" by (rule candidate_bij [OF assms])
  have c: "cands lo ?n start (nat ?n) = map ?c (map int [0..<nat ?n])"
    by (simp add: cands_def comp_def)
  have "int ` {0..<nat ?n} = {0..hi - lo}"
    using assms(1) by (auto simp: image_int_atLeastLessThan)
  then have idx: "set (map int [0..<nat ?n]) = {0..hi - lo}" by simp
  have "distinct (map int [0..<nat ?n])" by (simp add: distinct_map inj_on_def)
  with bij idx have "distinct (map ?c (map int [0..<nat ?n]))"
    by (simp only: distinct_map) (simp add: bij_betw_def)
  moreover have "set (map ?c (map int [0..<nat ?n])) = {lo..hi}"
    using bij idx by (simp only: set_map) (simp add: bij_betw_def)
  ultimately show ?thesis by (simp only: c)
qed

lemma scan_ports:
  assumes run: "range_loop E count lo (hi - lo + 1) start ty fam 0 0 [] s = (res, ports, s')"
    and range: "lo \<le> hi" "lo \<le> start"
  shows "\<exists>js. ports = map (candidate lo (hi - lo + 1) start) js \<and> sorted_wrt (<) js \<and>
           set js \<subseteq> {0..hi - lo} \<and> (\<forall>f. res = Some f \<longrightarrow> f = int (length ports))"
proof -
  let ?n = "hi - lo + 1"
  let ?c = "candidate lo ?n start"
  let ?I = "\<lambda>i found ports (t :: sys). 0 \<le> i \<and> i \<le> ?n \<and> found = int (length ports) \<and>
      (\<exists>js. ports = map ?c js \<and> sorted_wrt (<) js \<and> set js \<subseteq> {0..<i})"
  let ?Q = "\<lambda>res ports (t :: sys). \<exists>js. ports = map ?c js \<and> sorted_wrt (<) js \<and>
           set js \<subseteq> {0..hi - lo} \<and> (\<forall>f. res = Some f \<longrightarrow> f = int (length ports))"
  have weaken: "?Q r ps t" if "?I i f ps t" "r = None \<or> r = Some f" for i f ps t r
  proof -
    from that obtain js where "ps = map ?c js" "sorted_wrt (<) js" "set js \<subseteq> {0..<i}"
      and "i \<le> ?n" "f = int (length ps)" by blast
    moreover from this have "set js \<subseteq> {0..hi - lo}" by auto
    ultimately show ?thesis using that(2) by blast
  qed
  show ?thesis
  proof (rule range_loop_rule [where I = ?I and Q = ?Q, OF run])
    show "?I 0 0 [] s" using range by simp
  next
    fix i found ports t fd s1 r s2
    assume inv: "?I i found ports t" and i: "i < ?n"
    from inv obtain js where js: "ports = map ?c js" "sorted_wrt (<) js" "set js \<subseteq> {0..<i}"
      and i0: "0 \<le> i" and f: "found = int (length ports)" by blast
    let ?js = "if r = 0 then js @ [i] else js"
    have "(if r = 0 then ports @ [?c i] else ports) = map ?c ?js" using js(1) by simp
    moreover have "sorted_wrt (<) ?js" using js(2,3) by (auto simp: sorted_wrt_append)
    moreover have "set ?js \<subseteq> {0..<i + 1}" using js(3) i0 by auto
    ultimately have "\<exists>js. (if r = 0 then ports @ [?c i] else ports) = map ?c js \<and>
        sorted_wrt (<) js \<and> set js \<subseteq> {0..<i + 1}" by blast
    moreover have "(if r = 0 then found + 1 else found) =
        int (length (if r = 0 then ports @ [?c i] else ports))" using f by simp
    moreover have "0 \<le> i + 1" "i + 1 \<le> ?n" using i i0 by simp_all
    ultimately show "?I (i + 1) (if r = 0 then found + 1 else found)
        (if r = 0 then ports @ [?c i] else ports) (sys_close fd s2)"
      by simp
  next
    fix i found ports t fd s1
    assume "?I i found ports t"
    then show "?Q None ports s1" by (rule weaken) simp
  next
    fix i found ports t
    assume "?I i found ports t"
    then show "?Q (Some found) ports t" by (rule weaken) simp
  qed
qed

lemma range_search_result:
  assumes "1 \<le> lo" "lo \<le> hi" "hi \<le> 65535"
    and "find_free_ports_range E count lo hi ty fam s = (rc, ports, s')"
  shows "(\<forall>p \<in> set ports. lo \<le> p \<and> p \<le> hi) \<and> distinct ports \<and> (rc = 0 \<or> rc = - 1) \<and>
         (rc = 0 \<longrightarrow> int (length ports) = count)"
proof -
  let ?n = "hi - lo + 1"
  let ?st = "start_offset (rand_val E) lo ?n"
  let ?c = "candidate lo ?n ?st"
  have st: "lo \<le> ?st" using start_offset_bounds [OF assms(1-3)] by simp
  obtain res ps t where loop: "range_loop E count lo ?n ?st ty fam 0 0 [] s = (res, ps, t)"
    by (cases "range_loop E count lo ?n ?st ty fam 0 0 [] s")
  with assms(4) have ps: "ps = ports" and rc: "rc = 0 \<or> rc = - 1" "rc = 0 \<longrightarrow> res = Some count"
    by (auto simp: find_free_ports_range_def Let_def split: option.splits if_splits)
  from scan_ports [OF loop assms(2) st] ps obtain js where
    js: "ports = map ?c js" "sorted_wrt (<) js" "set js \<subseteq> {0..hi - lo}"
      "\<forall>f. res = Some f \<longrightarrow> f = int (length ports)"
    by blast
  have "\<forall>p \<in> set ports. lo \<le> p \<and> p \<le> hi"
    using js(1,3) candidate_bounds [OF assms(2) st] by auto
  moreover have "distinct js" using js(2) by (simp add: strict_sorted_iff)
  moreover have "inj_on ?c (set js)"
  proof (rule inj_onI)
    fix x y assume "x \<in> set js" "y \<in> set js" "?c x = ?c y"
    with js(3) have "0 \<le> x" "x \<le> hi - lo" "0 \<le> y" "y \<le> hi - lo" by auto
    from candidate_inj [OF assms(2) st this \<open>?c x = ?c y\<close>] show "x = y" .
  qed
  ultimately show ?thesis using js(1,4) rc by (auto simp: distinct_map)
qed


text \<open>
  Claim C2.  For a valid range \<open>1 \<le> lo \<le> hi \<le> 65535\<close>, every random value, every
  environment (so every outcome of the probes) and every \<open>count\<close>, the ports the range
  search hands back lie in \<open>[lo, hi]\<close> and are pairwise distinct; this holds for the ports
  of a successful search in particular.
\<close>

theorem range_ports_in_interval_and_distinct:
  assumes "1 \<le> lo" "lo \<le> hi" "hi \<le> 65535"
    and "find_free_ports_range E count lo hi ty fam s = (rc, ports, s')"
  shows "(\<forall>p \<in> set ports. lo \<le> p \<and> p \<le> hi) \<and> distinct ports"
  using range_search_result [OF assms] by blast

theorem range_ports_in_interval_and_distinct_witness:
  "fst (find_free_ports_range env_busy_8001 2 8000 8002 SOCK_STREAM AF_INET sys0) = 0 \<and>
   fst (snd (find_free_ports_range env_busy_8001 2 8000 8002 SOCK_STREAM AF_INET sys0)) = [8002, 8000] \<and>
   set [8002, 8000 :: int] \<subseteq> {8000..8002} \<and> distinct [8002, 8000 :: int]"
proof -
  let ?run = "find_free_ports_range env_busy_8001 2 8000 8002 SOCK_STREAM AF_INET sys0"
  have rc: "fst ?run = 0"
    by code_simp
  have ps: "fst (snd ?run) = [8002, 8000]"
    by code_simp
  have run: "?run = (fst ?run, fst (snd ?run), snd (snd ?run))"
    by simp
  from range_ports_in_interval_and_distinct [OF _ _ _ run] rc ps show ?thesis by simp
qed

subsection \<open>The loops of the batch routine\<close>

lemma open_bind_loop_stop:
  "\<not> i < count \<Longrightarrow> open_bind_loop E count ty fam i fds s = (True, i, fds, s)"
  by (subst open_bind_loop.simps) simp

lemma open_bind_loop_rule:
  assumes run: "open_bind_loop E count ty fam i fds s = (ok, n, fds', s')"
    and init: "I i fds s"
    and step: "\<And>i fds s fd s1 r s2.
        \<lbrakk>I i fds s; i < count; sys_socket E fam ty s = (fd, s1); 0 \<le> fd;
         sys_bind E fd (fst (setup_addr fam 0)) s1 = (r, s2); 0 \<le> r\<rbrakk>
        \<Longrightarrow> I (i + 1) (fds @ [fd]) s2"
    and sockfail: "\<And>i fds s fd s1.
        \<lbrakk>I i fds s; i < count; sys_socket E fam ty s = (fd, s1); fd < 0\<rbrakk>
        \<Longrightarrow> Q False i (fds @ [fd]) (perror ''fp: socket'' s1)"
    and bindfail: "\<And>i fds s fd s1 r s2.
        \<lbrakk>I i fds s; i < count; sys_socket E fam ty s = (fd, s1); 0 \<le> fd;
         sys_bind E fd (fst (setup_addr fam 0)) s1 = (r, s2); r < 0\<rbrakk>
        \<Longrightarrow> Q False (i + 1) (fds @ [fd]) (perror ''fp: bind'' s2)"
    and stop: "\<And>i fds s. \<lbrakk>I i fds s; \<not> i < count\<rbrakk> \<Longrightarrow> Q True i fds s"
  shows "Q ok n fds' s'"
  using run init
proof (induction "nat (count - i)" arbitrary: i fds s)
  case 0
  then have fin: "\<not> i < count" by simp
  from 0(2) open_bind_loop_stop [OF fin] have "ok = True" "n = i" "fds' = fds" "s' = s"
    by simp_all
  with stop [OF 0(3) fin] show ?case by simp
next
  case (Suc k)
  from Suc.hyps(2) have lt: "i < count" by simp
  obtain fd s1 where sock: "sys_socket E fam ty s = (fd, s1)" by (cases "sys_socket E fam ty s")
  show ?case
  proof (cases "fd < 0")
    case True
    with lt sock Suc.prems(1) have "ok = False" "n = i" "fds' = fds @ [fd]"
        "s' = perror ''fp: socket'' s1"
      by (simp_all add: open_bind_loop.simps [of E count ty fam i] Let_def)
    with sockfail [OF Suc.prems(2) lt sock True] show ?thesis by simp
  next
    case nonneg: False
    obtain r s2 where bind: "sys_bind E fd (fst (setup_addr fam 0)) s1 = (r, s2)"
      by (cases "sys_bind E fd (fst (setup_addr fam 0)) s1")
    show ?thesis
    proof (cases "r < 0")
      case True
      with lt sock nonneg bind Suc.prems(1) have "ok = False" "n = i + 1" "fds' = fds @ [fd]"
          "s' = perror ''fp: bind'' s2"
        by (simp_all add: open_bind_loop.simps [of E count ty fam i] Let_def case_prod_beta)
      with bindfail [OF Suc.prems(2) lt sock _ bind True] nonneg show ?thesis by simp
    next
      case False
      have unfold: "open_bind_loop E count ty fam i fds s =
          open_bind_loop E count ty fam (i + 1) (fds @ [fd]) s2"
        using lt sock nonneg bind False
        by (simp add: open_bind_loop.simps [of E count ty fam i] Let_def case_prod_beta)
      have inv: "I (i + 1) (fds @ [fd]) s2"
        using step [OF Suc.prems(2) lt sock _ bind] nonneg False by simp
      have "k = nat (count - (i + 1))" using Suc.hyps(2) by simp
      from Suc.hyps(1) [OF this _ inv] Suc.prems(1) unfold show ?thesis by simp
    qed
  qed
qed

lemma read_loop_stop:
  "\<not> i < count \<Longrightarrow> read_loop E count fam i fds ports s = (True, ports, s)"
  by (subst read_loop.simps) simp

lemma read_loop_rule:
  assumes run: "read_loop E count fam i fds ports s = (ok, ports', s')"
    and init: "I i ports s"
    and step: "\<And>i ports s r sa s1.
        \<lbrakk>I i ports s; i < count; sys_getsockname E (fds ! nat i) s = (r, sa, s1); 0 \<le> r\<rbrakk>
        \<Longrightarrow> I (i + 1) (ports @ [read_port sa fam]) s1"
    and fail: "\<And>i ports s r sa s1.
        \<lbrakk>I i ports s; i < count; sys_getsockname E (fds ! nat i) s = (r, sa, s1); r < 0\<rbrakk>
        \<Longrightarrow> Q False ports (perror ''fp: getsockname'' s1)"
    and stop: "\<And>i ports s. \<lbrakk>I i ports s; \<not> i < count\<rbrakk> \<Longrightarrow> Q True ports s"
  shows "Q ok ports' s'"
  using run init
proof (induction "nat (count - i)" arbitrary: i ports s)
  case 0
  then have fin: "\<not> i < count" by simp
  from 0(2) read_loop_stop [OF fin] have "ok = True" "ports' = ports" "s' = s"
    by simp_all
  with stop [OF 0(3) fin] show ?case by simp
next
  case (Suc k)
  from Suc.hyps(2) have lt: "i < count" by simp
  obtain r sa s1 where get: "sys_getsockname E (fds ! nat i) s = (r, sa, s1)"
    by (cases "sys_getsockname E (fds ! nat i) s")
  show ?case
  proof (cases "r < 0")
    case True
    with lt get Suc.prems(1) have "ok = False" "ports' = ports"
        "s' = perror ''fp: getsockname'' s1"
      by (simp_all add: read_loop.simps [of E count fam i] Let_def)
    with fail [OF Suc.prems(2) lt get True] show ?thesis by simp
  next
    case False
    have unfold: "read_loop E count fam i fds ports s =
        read_loop E count fam (i + 1) fds (ports @ [read_port sa fam]) s1"
      using lt get False by (simp add: read_loop.simps [of E count fam i] Let_def)
    have inv: "I (i + 1) (ports @ [read_port sa fam]) s1"
      using step [OF Suc.prems(2) lt get] False by simp
    have "k = nat (count - (i + 1))" using Suc.hyps(2) by simp
    from Suc.hyps(1) [OF this _ inv] Suc.prems(1) unfold show ?thesis by simp
  qed
qed

lemma close_loop_fold:
  "0 \<le> j \<Longrightarrow> close_loop j n fds s = fold sys_close (map ((!) fds) [nat j..<nat n]) s"
proof (induction "nat (n - j)" arbitrary: j s)
  case 0
  then show ?case by (simp add: close_loop.simps [of j])
next
  case (Suc k)
  then have lt: "j < n" and k: "k = nat (n - (j + 1))" by simp_all
  have "[nat j..<nat n] = nat j # [nat (j + 1)..<nat n]"
    using lt Suc.prems by (simp add: upt_conv_Cons nat_add_distrib)
  with Suc.hyps(1) [OF k, of "sys_close (fds ! nat j) s"] lt Suc.prems show ?case
    by (simp add: close_loop.simps [of j])
qed

lemma map_nth_take: "k \<le> length xs \<Longrightarrow> map ((!) xs) [0..<k] = take k xs"
  by (induction k) (simp_all add: take_Suc_conv_app_nth)

lemma fold_close_simps [simp]:
  "fdt (fold sys_close F s) = filter (\<lambda>e. fst e \<notin> set F) (fdt s)"
  "trace (fold sys_close F s) = trace s @ map Close F"
  "stdout (fold sys_close F s) = stdout s"
  "stderr (fold sys_close F s) = stderr s"
  by (induction F arbitrary: s; simp; metis)+

lemma print_loop_fold:
  "0 \<le> i \<Longrightarrow> print_loop i n ports s =
     fold (\<lambda>k. oprint (Port_line (ports ! k))) [nat i..<nat n] s"
proof (induction "nat (n - i)" arbitrary: i s)
  case 0
  then show ?case by (simp add: print_loop.simps [of i])
next
  case (Suc k)
  then have lt: "i < n" and k: "k = nat (n - (i + 1))" by simp_all
  have "[nat i..<nat n] = nat i # [nat (i + 1)..<nat n]"
    using lt Suc.prems by (simp add: upt_conv_Cons nat_add_distrib)
  with Suc.hyps(1) [OF k, of "oprint (Port_line (ports ! nat i)) s"] lt Suc.prems show ?case
    by (simp add: print_loop.simps [of i])
qed

lemma fold_oprint_simps [simp]:
  "fdt (fold (\<lambda>k. oprint (f k)) ks s) = fdt s"
  "trace (fold (\<lambda>k. oprint (f k)) ks s) = trace s"
  "stdout (fold (\<lambda>k. oprint (f k)) ks s) = stdout s @ map f ks"
  "stderr (fold (\<lambda>k. oprint (f k)) ks s) = stderr s"
  by (induction ks arbitrary: s; simp)+

subsection \<open>Descriptors: what a run opens, it closes\<close>

lemma open_after_simps [simp]:
  "open_after [] L = L"
  "open_after (e # es) L = open_after es (step_open e L)"
  "open_after (es @ es') L = open_after es' (open_after es L)"
  by (simp_all add: open_after_def)

lemma open_after_closes: "open_after (map Close F) L = filter (\<lambda>x. x \<notin> set F) L"
proof (induction F arbitrary: L)
  case Nil
  then show ?case by simp
next
  case (Cons f F)
  have "filter (\<lambda>x. x \<notin> set F) (removeAll f L) = filter (\<lambda>x. x \<notin> set (f # F)) L"
    by (induction L) auto
  with Cons show ?case by simp
qed

lemma peak_append: "peak (es @ es') L = max (peak es L) (peak es' (open_after es L))"
proof (induction es arbitrary: L)
  case Nil
  have "length L \<le> peak es' L" by (cases es') simp_all
  then show ?case by simp
next
  case (Cons e es)
  then show ?case by simp
qed

lemma filter_set_local:
  "fd \<in> F \<Longrightarrow> filter (\<lambda>e. fst e \<notin> F) (set_local fd a tbl) = filter (\<lambda>e. fst e \<notin> F) tbl"
  by (induction tbl) (auto simp: set_local_def split: if_splits)

lemma filter_fresh:
  "fd \<notin> fst ` set tbl \<Longrightarrow>
   filter (\<lambda>e. fst e \<notin> insert fd F) tbl = filter (\<lambda>e. fst e \<notin> F) tbl"
  by (induction tbl) auto

lemma keys_set_local [simp]: "map fst (set_local fd a tbl) = map fst tbl"
  by (induction tbl) (auto simp: set_local_def)

text \<open>One probe of the scan leaves the descriptor table as it found it.\<close>

lemma probe_frame:
  assumes sock: "sys_socket E fam ty t = (fd, s1)" and fd: "0 \<le> fd"
    and bind: "sys_bind E fd sa s1 = (r, s2)"
  shows "fdt (sys_close fd s2) = fdt t"
    and "trace (sys_close fd s2) = trace t @ [Socket fam ty fd, Bind fd sa r, Close fd]"
    and "stdout (sys_close fd s2) = stdout t" and "stderr (sys_close fd s2) = stderr t"
proof -
  from sock fd have fresh: "fd \<notin> fst ` set (fdt t)"
    and s1: "fdt s1 = fdt t @ [(fd, \<lparr>so_family = fam, so_type = ty, so_local = None\<rparr>)]"
      "stdout s1 = stdout t" "stderr s1 = stderr t"
    by (auto elim!: sys_socket_cases)
  have filt: "filter (\<lambda>e. fst e \<noteq> fd) (fdt s1) = fdt t"
    using filter_fresh [OF fresh, of "{}"] by (simp add: s1)
  from bind show "fdt (sys_close fd s2) = fdt t"
  proof (cases rule: sys_bind_cases)
    case fail
    with filt show ?thesis by simp
  next
    case (ok p)
    with filt filter_set_local [of fd "{fd}" "local_addr sa p" "fdt s1"] show ?thesis by simp
  qed
  show "trace (sys_close fd s2) = trace t @ [Socket fam ty fd, Bind fd sa r, Close fd]"
    using sys_socket_trace [OF sock] sys_bind_trace [OF bind] by simp
  from bind s1 show "stdout (sys_close fd s2) = stdout t" "stderr (sys_close fd s2) = stderr t"
    by (auto elim!: sys_bind_cases)
qed

lemma scan_frame:
  assumes run: "range_loop E count lo rng start ty fam i found ports s = (res, ports', s')"
  shows "fdt s' = fdt s \<and> stdout s' = stdout s \<and> stderr s' = stderr s \<and>
         (\<exists>es. trace s' = trace s @ es \<and> open_after es [] = [] \<and> peak es [] \<le> 1)"
proof -
  let ?I = "\<lambda>(i :: int) (found :: int) (ports :: int list) t.
      fdt t = fdt s \<and> stdout t = stdout s \<and> stderr t = stderr s \<and>
      (\<exists>es. trace t = trace s @ es \<and> open_after es [] = [] \<and> peak es [] \<le> 1)"
  let ?Q = "\<lambda>(res :: int option) (ports :: int list) t.
      fdt t = fdt s \<and> stdout t = stdout s \<and> stderr t = stderr s \<and>
      (\<exists>es. trace t = trace s @ es \<and> open_after es [] = [] \<and> peak es [] \<le> 1)"
  show ?thesis
  proof (rule range_loop_rule [where I = ?I and Q = ?Q, OF run])
    show "?I i found ports s" by simp
  next
    fix i found ports t fd s1 r s2
    assume inv: "?I i found ports t"
      and sock: "sys_socket E fam ty t = (fd, s1)" and fd: "0 \<le> fd"
      and bind: "sys_bind E fd (fst (setup_addr fam (candidate lo rng start i))) s1 = (r, s2)"
    from inv obtain es where es: "trace t = trace s @ es" "open_after es [] = []" "peak es [] \<le> 1"
      by blast
    let ?new = "[Socket fam ty fd, Bind fd (fst (setup_addr fam (candidate lo rng start i))) r, Close fd]"
    note fr = probe_frame [OF sock fd bind]
    have "trace (sys_close fd s2) = trace s @ (es @ ?new)" using fr(2) es(1) by simp
    moreover have "open_after (es @ ?new) [] = []" using es(2) fd by simp
    moreover have "peak (es @ ?new) [] \<le> 1" using es(2,3) fd by (simp add: peak_append)
    ultimately have "\<exists>es. trace (sys_close fd s2) = trace s @ es \<and> open_after es [] = [] \<and>
        peak es [] \<le> 1" by blast
    with inv fr(1,3,4) show "?I (i + 1) (if r = 0 then found + 1 else found)
        (if r = 0 then ports @ [candidate lo rng start i] else ports) (sys_close fd s2)"
      by simp
  next
    fix i found ports t fd s1
    assume inv: "?I i found ports t" and sock: "sys_socket E fam ty t = (fd, s1)" and fd: "fd < 0"
    from inv obtain es where es: "trace t = trace s @ es" "open_after es [] = []" "peak es [] \<le> 1"
      by blast
    from sock fd have s1: "s1 = log_event (Socket fam ty fd) t" by (auto elim!: sys_socket_cases)
    have "trace s1 = trace s @ (es @ [Socket fam ty fd])" using s1 es(1) by simp
    moreover have "open_after (es @ [Socket fam ty fd]) [] = []" using es(2) fd by simp
    moreover have "peak (es @ [Socket fam ty fd]) [] \<le> 1" using es(2,3) fd by (simp add: peak_append)
    ultimately have "\<exists>es. trace s1 = trace s @ es \<and> open_after es [] = [] \<and> peak es [] \<le> 1"
      by blast
    with inv s1 show "?Q None ports s1" by simp
  next
    fix i found ports t
    assume "?I i found ports t"
    then show "?Q (Some found) ports t" .
  qed
qed

lemma range_search_frame:
  assumes "find_free_ports_range E count lo hi ty fam s = (rc, ports, s')"
  shows "fdt s' = fdt s \<and> stdout s' = stdout s \<and> stderr s' = stderr s \<and>
         open_after (new_events s s') [] = [] \<and> peak (new_events s s') [] \<le> 1"
proof -
  let ?n = "hi - lo + 1"
  let ?st = "start_offset (rand_val E) lo ?n"
  obtain res ps t where loop: "range_loop E count lo ?n ?st ty fam 0 0 [] s = (res, ps, t)"
    by (cases "range_loop E count lo ?n ?st ty fam 0 0 [] s")
  with assms have t: "t = s'"
    by (auto simp: find_free_ports_range_def Let_def split: option.splits if_splits)
  from scan_frame [OF loop] t obtain es where "fdt s' = fdt s" "stdout s' = stdout s"
    "stderr s' = stderr s" "trace s' = trace s @ es" "open_after es [] = []" "peak es [] \<le> 1"
    by blast
  then show ?thesis by (simp add: new_events_def)
qed

lemma sys_getsockname_frame:
  assumes "sys_getsockname E fd s = (r, sa, s1)"
  shows "fdt s1 = fdt s" "stdout s1 = stdout s" "stderr s1 = stderr s"
    "trace s1 = trace s @ [Getsockname fd sa r]"
  using assms by (auto elim!: sys_getsockname_cases)

text \<open>Opening and binding one socket adds one descriptor and touches no other.\<close>

lemma open_bind_step:
  assumes sock: "sys_socket E fam ty t = (fd, s1)" and fd: "0 \<le> fd"
    and bind: "sys_bind E fd sa s1 = (r, s2)"
  shows "filter (\<lambda>e. fst e \<notin> insert fd F) (fdt s2) = filter (\<lambda>e. fst e \<notin> F) (fdt t)"
    and "trace s2 = trace t @ [Socket fam ty fd, Bind fd sa r]"
    and "stdout s2 = stdout t"
proof -
  from sock fd have fresh: "fd \<notin> fst ` set (fdt t)"
    and s1: "fdt s1 = fdt t @ [(fd, \<lparr>so_family = fam, so_type = ty, so_local = None\<rparr>)]"
      "stdout s1 = stdout t"
    by (auto elim!: sys_socket_cases)
  have filt: "filter (\<lambda>e. fst e \<notin> insert fd F) (fdt s1) = filter (\<lambda>e. fst e \<notin> F) (fdt t)"
    using filter_fresh [OF fresh, of F] by (simp add: s1)
  from bind show "filter (\<lambda>e. fst e \<notin> insert fd F) (fdt s2) = filter (\<lambda>e. fst e \<notin> F) (fdt t)"
  proof (cases rule: sys_bind_cases)
    case fail
    with filt show ?thesis by simp
  next
    case (ok p)
    with filt filter_set_local [of fd "insert fd F" "local_addr sa p" "fdt s1"] show ?thesis by simp
  qed
  show "trace s2 = trace t @ [Socket fam ty fd, Bind fd sa r]"
    using sys_socket_trace [OF sock] sys_bind_trace [OF bind] by simp
  from bind s1 show "stdout s2 = stdout t" by (auto elim!: sys_bind_cases)
qed

lemma open_bind_frame:
  assumes run: "open_bind_loop E count ty fam 0 [] s = (ok, n, fds, s1)"
  shows "0 \<le> n \<and> nat n \<le> length fds \<and>
         (ok \<longrightarrow> nat count = length fds \<and> nat n = length fds) \<and>
         filter (\<lambda>e. fst e \<notin> set (take (nat n) fds)) (fdt s1) = fdt s \<and>
         stdout s1 = stdout s \<and>
         (\<exists>es. trace s1 = trace s @ es \<and> open_after es [] = take (nat n) fds)"
proof -
  let ?I = "\<lambda>i fds t. 0 \<le> i \<and> (i = 0 \<or> i \<le> count) \<and> length fds = nat i \<and>
      filter (\<lambda>e. fst e \<notin> set fds) (fdt t) = fdt s \<and> stdout t = stdout s \<and>
      (\<exists>es. trace t = trace s @ es \<and> open_after es [] = fds)"
  let ?Q = "\<lambda>ok n fds t. 0 \<le> n \<and> nat n \<le> length fds \<and>
      (ok \<longrightarrow> nat count = length fds \<and> nat n = length fds) \<and>
      filter (\<lambda>e. fst e \<notin> set (take (nat n) fds)) (fdt t) = fdt s \<and> stdout t = stdout s \<and>
      (\<exists>es. trace t = trace s @ es \<and> open_after es [] = take (nat n) fds)"
  show ?thesis
  proof (rule open_bind_loop_rule [where I = ?I and Q = ?Q, OF run])
    show "?I 0 [] s" by simp
  next
    fix i fds t fd s1 r s2
    assume inv: "?I i fds t" and lt: "i < count"
      and sock: "sys_socket E fam ty t = (fd, s1)" and fd: "0 \<le> fd"
      and bind: "sys_bind E fd (fst (setup_addr fam 0)) s1 = (r, s2)"
    from inv obtain es where es: "trace t = trace s @ es" "open_after es [] = fds"
      and i0: "0 \<le> i" and len: "length fds = nat i"
      and tbl: "filter (\<lambda>e. fst e \<notin> set fds) (fdt t) = fdt s" and out: "stdout t = stdout s"
      by blast
    note st = open_bind_step [OF sock fd bind]
    let ?new = "[Socket fam ty fd, Bind fd (fst (setup_addr fam 0)) r]"
    have "trace s2 = trace s @ (es @ ?new)" using st(2) es(1) by simp
    moreover have "open_after (es @ ?new) [] = fds @ [fd]" using es(2) fd by simp
    ultimately have "\<exists>es. trace s2 = trace s @ es \<and> open_after es [] = fds @ [fd]" by blast
    moreover have "filter (\<lambda>e. fst e \<notin> set (fds @ [fd])) (fdt s2) = fdt s"
      using st(1) [of "set fds"] tbl by simp
    moreover have "length (fds @ [fd]) = nat (i + 1)" using len i0 by simp
    moreover have "0 \<le> i + 1" "i + 1 \<le> count" using i0 lt by simp_all
    ultimately have step: "?I (i + 1) (fds @ [fd]) s2" using st(3) out by simp
    show "?I (i + 1) (fds @ [fd]) s2" if "0 \<le> r" by (rule step)
    have "nat (i + 1) = Suc (length fds)" using len i0 by simp
    with step show "?Q False (i + 1) (fds @ [fd]) (perror ''fp: bind'' s2)" if "r < 0"
      by simp
  next
    fix i fds t fd s1
    assume inv: "?I i fds t" and sock: "sys_socket E fam ty t = (fd, s1)" and fd: "fd < 0"
    from inv obtain es where es: "trace t = trace s @ es" "open_after es [] = fds"
      and i0: "0 \<le> i" and len: "length fds = nat i"
      and tbl: "filter (\<lambda>e. fst e \<notin> set fds) (fdt t) = fdt s" and out: "stdout t = stdout s"
      by blast
    from sock fd have s1: "s1 = log_event (Socket fam ty fd) t" by (auto elim!: sys_socket_cases)
    have "trace s1 = trace s @ (es @ [Socket fam ty fd])" using s1 es(1) by simp
    moreover have "open_after (es @ [Socket fam ty fd]) [] = fds" using es(2) fd by simp
    ultimately have "\<exists>es. trace s1 = trace s @ es \<and> open_after es [] = fds" by blast
    with i0 len tbl out s1 show "?Q False i (fds @ [fd]) (perror ''fp: socket'' s1)" by simp
  next
    fix i fds t
    assume inv: "?I i fds t" and stop: "\<not> i < count"
    then have "nat count = length fds" by auto
    with inv show "?Q True i fds t" by simp
  qed
qed

lemma read_loop_frame:
  assumes run: "read_loop E count fam i fds ports s = (ok, ports', s')"
  shows "fdt s' = fdt s \<and> stdout s' = stdout s \<and>
         (\<exists>es. trace s' = trace s @ es \<and> (\<forall>L. open_after es L = L))"
proof -
  let ?I = "\<lambda>(i :: int) (ports :: int list) t. fdt t = fdt s \<and> stdout t = stdout s \<and>
         (\<exists>es. trace t = trace s @ es \<and> (\<forall>L. open_after es L = L))"
  let ?Q = "\<lambda>(ok :: bool) (ports :: int list) t. fdt t = fdt s \<and> stdout t = stdout s \<and>
         (\<exists>es. trace t = trace s @ es \<and> (\<forall>L. open_after es L = L))"
  have one: "?I (j :: int) (ps :: int list) s1"
    if inv: "?I i ports t" and get: "sys_getsockname E fd t = (r, sa, s1)" for i ports t fd r sa s1 j ps
  proof -
    from inv obtain es where es: "trace t = trace s @ es" "\<forall>L. open_after es L = L" by blast
    note fr = sys_getsockname_frame [OF get]
    have "trace s1 = trace s @ (es @ [Getsockname fd sa r])" using fr(4) es(1) by simp
    moreover have "\<forall>L. open_after (es @ [Getsockname fd sa r]) L = L" using es(2) by simp
    ultimately have "\<exists>es. trace s1 = trace s @ es \<and> (\<forall>L. open_after es L = L)" by blast
    with inv fr(1,2) show ?thesis by simp
  qed
  show ?thesis
  proof (rule read_loop_rule [where I = ?I and Q = ?Q, OF run])
    show "?I i ports s" by simp
  next
    fix i ports t r sa s1
    assume "?I i ports t" "sys_getsockname E (fds ! nat i) t = (r, sa, s1)"
    from one [OF this] show "?I (i + 1) (ports @ [read_port sa fam]) s1" .
  next
    fix i ports t r sa s1
    assume "?I i ports t" "sys_getsockname E (fds ! nat i) t = (r, sa, s1)"
    from one [OF this] show "?Q False ports (perror ''fp: getsockname'' s1)" by simp
  next
    fix i ports t
    assume "?I i ports t"
    then show "?Q True ports t" .
  qed
qed

lemma close_loop_take:
  "nat n \<le> length fds \<Longrightarrow> close_loop 0 n fds s = fold sys_close (take (nat n) fds) s"
  using close_loop_fold [of 0 n fds s] by (simp add: map_nth_take)

lemma batch_frame:
  assumes "find_free_ports E count ty fam s = (rc, ports, s')"
  shows "fdt s' = fdt s \<and> stdout s' = stdout s \<and> open_after (new_events s s') [] = []"
proof -
  obtain ok n fds s1 where l1: "open_bind_loop E count ty fam 0 [] s = (ok, n, fds, s1)"
    by (cases "open_bind_loop E count ty fam 0 [] s")
  from open_bind_frame [OF l1] obtain es where
    n: "0 \<le> n" "nat n \<le> length fds" and ok: "ok \<longrightarrow> nat count = length fds \<and> nat n = length fds"
    and tbl: "filter (\<lambda>e. fst e \<notin> set (take (nat n) fds)) (fdt s1) = fdt s"
    and out: "stdout s1 = stdout s"
    and es: "trace s1 = trace s @ es" "open_after es [] = take (nat n) fds"
    by blast
  show ?thesis
  proof (cases ok)
    case False
    from False assms l1 have "s' = close_loop 0 n fds s1"
      by (simp add: find_free_ports_def)
    then have s': "s' = fold sys_close (take (nat n) fds) s1"
      using close_loop_take [OF n(2)] by simp
    have "new_events s s' = es @ map Close (take (nat n) fds)"
      using es(1) by (simp add: s' new_events_def)
    then have "open_after (new_events s s') [] = []"
      using es(2) by (simp add: open_after_closes)
    with tbl out show ?thesis by (simp add: s')
  next
    case True
    with ok have len: "nat count = length fds" "take (nat n) fds = fds" by simp_all
    obtain fin ps s2 where l2: "read_loop E count fam 0 fds [] s1 = (fin, ps, s2)"
      by (cases "read_loop E count fam 0 fds [] s1")
    from read_loop_frame [OF l2] obtain es2 where
      s2: "fdt s2 = fdt s1" "stdout s2 = stdout s1" "trace s2 = trace s1 @ es2"
        "\<forall>L. open_after es2 L = L"
      by blast
    from True assms l1 l2 have "s' = close_loop 0 count fds s2"
      by (simp add: find_free_ports_def split: if_splits)
    then have s': "s' = fold sys_close fds s2"
      using close_loop_take [of count fds s2] len by simp
    have "new_events s s' = es @ es2 @ map Close fds"
      using es(1) s2(3) by (simp add: s' new_events_def)
    then have "open_after (new_events s s') [] = []"
      using es(2) s2(4) len by (simp add: open_after_closes)
    with tbl out s2 len show ?thesis by (simp add: s')
  qed
qed

text \<open>
  Claim C5.  Both acquisition routines close every socket they open, whatever the
  environment does (so on the success path and on the paths where \<^verbatim>\<open>socket\<close>,
  \<^verbatim>\<open>bind\<close> or \<^verbatim>\<open>getsockname\<close> fails): the events of the run leave no descriptor
  open, and the descriptor table after the call is the table before it.
\<close>

theorem every_socket_closed:
  "(count \<le> MAX_PORTS \<and> find_free_ports E count ty fam s = (rc, ports, s') \<longrightarrow>
      fdt s' = fdt s \<and> open_after (new_events s s') [] = []) \<and>
   (find_free_ports_range E count lo hi ty fam s = (rc2, ports2, s2) \<longrightarrow>
      fdt s2 = fdt s \<and> open_after (new_events s s2) [] = [])"
  using batch_frame [of E count ty fam s rc ports s']
    range_search_frame [of E count lo hi ty fam s rc2 ports2 s2]
  by blast

theorem every_socket_closed_witness:
  "(2 :: int) \<le> MAX_PORTS \<and>
   fst (find_free_ports env_free 2 SOCK_STREAM AF_INET sys0) = 0 \<and>
   fdt (snd (snd (find_free_ports env_free 2 SOCK_STREAM AF_INET sys0))) = fdt sys0 \<and>
   stderr (snd (snd (find_free_ports env_two_descriptors 2 SOCK_STREAM AF_INET sys0)))
     = [Perror ''fp: socket''] \<and>
   fdt (snd (snd (find_free_ports env_two_descriptors 2 SOCK_STREAM AF_INET sys0))) = fdt sys0 \<and>
   stderr (snd (snd (find_free_ports env_all_busy 2 SOCK_STREAM AF_INET sys0)))
     = [Perror ''fp: bind''] \<and>
   fdt (snd (snd (find_free_ports env_all_busy 2 SOCK_STREAM AF_INET sys0))) = fdt sys0 \<and>
   stderr (snd (snd (find_free_ports env_getsockname_fails 2 SOCK_STREAM AF_INET sys0)))
     = [Perror ''fp: getsockname''] \<and>
   fdt (snd (snd (find_free_ports env_getsockname_fails 2 SOCK_STREAM AF_INET sys0))) = fdt sys0 \<and>
   open_after (new_events sys0
     (snd (snd (find_free_ports env_getsockname_fails 2 SOCK_STREAM AF_INET sys0)))) [] = [] \<and>
   fst (find_free_ports_range env_busy_8001 2 8000 8002 SOCK_STREAM AF_INET sys0) = 0 \<and>
   fdt (snd (snd (find_free_ports_range env_busy_8001 2 8000 8002 SOCK_STREAM AF_INET sys0)))
     = fdt sys0 \<and>
   fst (find_free_ports_range env_one_socket 2 8000 8002 SOCK_STREAM AF_INET sys0) = - 1 \<and>
   fdt (snd (snd (find_free_ports_range env_one_socket 2 8000 8002 SOCK_STREAM AF_INET sys0)))
     = fdt sys0 \<and>
   open_after (new_events sys0
     (snd (snd (find_free_ports_range env_one_socket 2 8000 8002 SOCK_STREAM AF_INET sys0))))
     [] = []"
proof -
  have max: "(2 :: int) \<le> MAX_PORTS" by (simp add: MAX_PORTS_def)
  have batch: "fdt (snd (snd (find_free_ports E 2 SOCK_STREAM AF_INET sys0))) = fdt sys0 \<and>
      open_after (new_events sys0 (snd (snd (find_free_ports E 2 SOCK_STREAM AF_INET sys0)))) [] = []"
    for E
    using every_socket_closed [where count = 2 and E = E and ty = SOCK_STREAM and fam = AF_INET
        and s = sys0 and rc = "fst (find_free_ports E 2 SOCK_STREAM AF_INET sys0)"
        and ports = "fst (snd (find_free_ports E 2 SOCK_STREAM AF_INET sys0))"
        and s' = "snd (snd (find_free_ports E 2 SOCK_STREAM AF_INET sys0))"] max
    by simp
  have range: "fdt (snd (snd (find_free_ports_range E 2 8000 8002 SOCK_STREAM AF_INET sys0))) = fdt sys0 \<and>
      open_after (new_events sys0
        (snd (snd (find_free_ports_range E 2 8000 8002 SOCK_STREAM AF_INET sys0)))) [] = []"
    for E
    using every_socket_closed [where count = 2 and E = E and ty = SOCK_STREAM and fam = AF_INET
        and s = sys0 and lo = 8000 and hi = 8002
        and ?rc2.0 = "fst (find_free_ports_range E 2 8000 8002 SOCK_STREAM AF_INET sys0)"
        and ?ports2.0 = "fst (snd (find_free_ports_range E 2 8000 8002 SOCK_STREAM AF_INET sys0))"
        and ?s2.0 = "snd (snd (find_free_ports_range E 2 8000 8002 SOCK_STREAM AF_INET sys0))"]
    by simp
  have paths:
    "fst (find_free_ports env_free 2 SOCK_STREAM AF_INET sys0) = 0"
    "stderr (snd (snd (find_free_ports env_two_descriptors 2 SOCK_STREAM AF_INET sys0)))
       = [Perror ''fp: socket'']"
    "stderr (snd (snd (find_free_ports env_all_busy 2 SOCK_STREAM AF_INET sys0)))
       = [Perror ''fp: bind'']"
    "stderr (snd (snd (find_free_ports env_getsockname_fails 2 SOCK_STREAM AF_INET sys0)))
       = [Perror ''fp: getsockname'']"
    "fst (find_free_ports_range env_busy_8001 2 8000 8002 SOCK_STREAM AF_INET sys0) = 0"
    "fst (find_free_ports_range env_one_socket 2 8000 8002 SOCK_STREAM AF_INET sys0) = - 1"
    by code_simp+
  from max paths batch [of env_free] batch [of env_two_descriptors] batch [of env_all_busy]
    batch [of env_getsockname_fails] range [of env_busy_8001] range [of env_one_socket]
  show ?thesis by blast
qed

text \<open>
  Claim C8.  Along a range search at most one descriptor opened by the search is open at
  any time, and none is left open: the socket of a candidate is closed, whether its
  \<^verbatim>\<open>bind\<close> succeeded or failed, before the next candidate is probed.
\<close>

theorem one_probe_socket_at_a_time:
  assumes "find_free_ports_range E count lo hi ty fam s = (rc, ports, s')"
  shows "peak (new_events s s') [] \<le> 1 \<and> open_after (new_events s s') [] = []"
  using range_search_frame [OF assms] by blast

theorem one_probe_socket_at_a_time_witness:
  "peak (new_events sys0
     (snd (snd (find_free_ports_range env_busy_8001 2 8000 8002 SOCK_STREAM AF_INET sys0)))) [] = 1 \<and>
   bind_results (new_events sys0
     (snd (snd (find_free_ports_range env_busy_8001 2 8000 8002 SOCK_STREAM AF_INET sys0))))
     = [(8001, - 1), (8002, 0), (8000, 0)]"
proof -
  let ?r = "find_free_ports_range env_busy_8001 2 8000 8002 SOCK_STREAM AF_INET sys0"
  have r: "?r = (fst ?r, fst (snd ?r), snd (snd ?r))" by simp
  have "1 \<le> peak (new_events sys0 (snd (snd ?r))) []" by code_simp
  moreover have "bind_results (new_events sys0 (snd (snd ?r))) = [(8001, - 1), (8002, 0), (8000, 0)]"
    by code_simp
  ultimately show ?thesis using one_probe_socket_at_a_time [OF r] by simp
qed

subsection \<open>The ports of the batch routine\<close>

lemma htons_zero [simp]: "htons 0 = 0" and ntohs_zero [simp]: "ntohs 0 = 0"
  by (simp_all add: htons_def ntohs_def)

lemma map_of_set_local:
  "map_of (set_local fd a tbl) f =
     (if f = fd then map_option (\<lambda>so. so\<lparr>so_local := Some a\<rparr>) (map_of tbl f) else map_of tbl f)"
  by (induction tbl) (auto simp: set_local_def)

lemma map_of_fresh_append:
  "fd \<notin> fst ` set tbl \<Longrightarrow>
   map_of (tbl @ [(fd, so)]) f = (if f = fd then Some so else map_of tbl f)"
  by (induction tbl) auto

lemma held_portsI:
  assumes "map_of tbl f = Some so" "so_local so = Some a"
    "so_family so = fam" "so_type so = ty" "sa_addr a = addr"
  shows "ntohs (sa_port a) \<in> set (held_ports tbl fam ty addr)"
proof -
  from assms(1) have "(f, so) \<in> set tbl" by (rule map_of_SomeD)
  with assms(2-) show ?thesis by (force simp: held_ports_def)
qed

lemma open_bind_ports:
  assumes run: "open_bind_loop E count ty fam 0 [] s = (True, n, fds, s1)"
    and contract: "ephemeral_unique E"
  shows "nat count = length fds \<and> (\<forall>f \<in> set fds. port_of (fdt s1) f \<noteq> 0) \<and>
         distinct (map (port_of (fdt s1)) fds)"
proof -
  let ?sa = "fst (setup_addr fam 0)"
  let ?good = "\<lambda>tbl f. \<exists>so a. map_of tbl f = Some so \<and> so_family so = fam \<and> so_type so = ty \<and>
      so_local so = Some a \<and> sa_addr a = sa_addr ?sa \<and> ntohs (sa_port a) \<noteq> 0"
  let ?I = "\<lambda>i fds (t :: sys). 0 \<le> i \<and> (i = 0 \<or> i \<le> count) \<and> length fds = nat i \<and>
      (\<forall>f \<in> set fds. ?good (fdt t) f) \<and> distinct (map (port_of (fdt t)) fds)"
  let ?Q = "\<lambda>ok (n :: int) fds (t :: sys). ok \<longrightarrow> nat count = length fds \<and>
      (\<forall>f \<in> set fds. port_of (fdt t) f \<noteq> 0) \<and> distinct (map (port_of (fdt t)) fds)"
  have port0: "sa_port ?sa = 0" by (simp add: setup_addr_def zero_sockaddr_def)
  have "?Q True n fds s1"
  proof (rule open_bind_loop_rule [where I = ?I and Q = ?Q, OF run])
    show "?I 0 [] s" by simp
  next
    fix i fds t fd t1 r t2
    assume inv: "?I i fds t" and lt: "i < count"
      and sock: "sys_socket E fam ty t = (fd, t1)" and fd: "0 \<le> fd"
      and bind: "sys_bind E fd ?sa t1 = (r, t2)" and r: "0 \<le> r"
    let ?so = "\<lparr>so_family = fam, so_type = ty, so_local = None\<rparr>"
    from sock fd have fresh: "fd \<notin> fst ` set (fdt t)" and t1: "fdt t1 = fdt t @ [(fd, ?so)]"
      by (auto elim!: sys_socket_cases)
    from bind r obtain p where p: "bind_res E t1 fd ?sa = Some p"
      and t2: "fdt t2 = set_local fd (local_addr ?sa p) (fdt t1)"
      by (auto elim!: sys_bind_cases)
    let ?a = "?sa\<lparr>sa_port := htons p\<rparr>"
    have la: "local_addr ?sa p = ?a" by (simp add: local_addr_def port0)
    have new: "map_of (fdt t1) fd = Some ?so"
      using map_of_fresh_append [OF fresh] by (simp add: t1)
    from contract new port0 p
    have "p \<noteq> 0 \<and> p \<notin> set (held_ports (fdt t1) (so_family ?so) (so_type ?so) (sa_addr ?sa))"
      unfolding ephemeral_unique_def by blast
    then have p0: "p \<noteq> 0"
      and free: "p \<notin> set (held_ports (fdt t1) fam ty (sa_addr ?sa))"
      by simp_all
    have old: "map_of (fdt t2) f = map_of (fdt t) f \<and> f \<noteq> fd \<and> port_of (fdt t) f \<noteq> p \<and>
        port_of (fdt t2) f = port_of (fdt t) f" if "f \<in> set fds" for f
    proof -
      from inv that obtain so a where so: "map_of (fdt t) f = Some so" "so_family so = fam"
        "so_type so = ty" "so_local so = Some a" "sa_addr a = sa_addr ?sa"
        by blast
      from so(1) have "f \<in> fst ` set (fdt t)" by (metis map_of_eq_None_iff option.distinct(1))
      with fresh have ne: "f \<noteq> fd" by blast
      then have m1: "map_of (fdt t1) f = map_of (fdt t) f"
        using map_of_fresh_append [OF fresh] by (simp add: t1)
      then have m2: "map_of (fdt t2) f = map_of (fdt t) f"
        using ne by (simp add: t2 map_of_set_local)
      from held_portsI [OF _ so(4,2,3,5)] m1 so(1) free have "ntohs (sa_port a) \<noteq> p" by auto
      with so(1,4) m2 ne show ?thesis by (simp add: port_of_def)
    qed
    have newfd: "map_of (fdt t2) fd = Some (?so\<lparr>so_local := Some ?a\<rparr>)"
      using new by (simp add: t2 map_of_set_local la)
    then have pfd: "port_of (fdt t2) fd = p" by (simp add: port_of_def ntohs_htons)
    have "?good (fdt t2) fd" using newfd p0 by (simp add: ntohs_htons)
    moreover have "?good (fdt t2) f" if "f \<in> set fds" for f
      using inv old [OF that] that by auto
    ultimately have g: "\<forall>f \<in> set (fds @ [fd]). ?good (fdt t2) f" by auto
    have meq: "map (port_of (fdt t2)) fds = map (port_of (fdt t)) fds"
      using old by simp
    have "p \<notin> set (map (port_of (fdt t)) fds)" using old by auto
    then have d: "distinct (map (port_of (fdt t2)) (fds @ [fd]))"
      using inv pfd by (simp add: meq)
    have "length (fds @ [fd]) = nat (i + 1)" "0 \<le> i + 1" "i + 1 \<le> count"
      using inv lt by (simp_all add: nat_add_distrib)
    with g d show "?I (i + 1) (fds @ [fd]) t2" by blast
  next
    fix i fds t
    assume inv: "?I i fds t" and stop: "\<not> i < count"
    then have "nat count = length fds" by auto
    moreover have "port_of (fdt t) f \<noteq> 0" if "f \<in> set fds" for f
      using inv that by (auto simp: port_of_def)
    ultimately show "?Q True i fds t" using inv by blast
  qed simp_all
  then show ?thesis by simp
qed

lemma read_ports:
  assumes run: "read_loop E count fam 0 fds [] s1 = (ok, ports, s2)"
    and len: "nat count = length fds"
  shows "ok \<longrightarrow> ports = map (\<lambda>f. uint (port_of (fdt s1) f)) fds"
proof -
  let ?I = "\<lambda>i ports (t :: sys). 0 \<le> i \<and> (i = 0 \<or> i \<le> count) \<and> fdt t = fdt s1 \<and>
      ports = map (\<lambda>f. uint (port_of (fdt s1) f)) (take (nat i) fds)"
  let ?Q = "\<lambda>ok ports (t :: sys). ok \<longrightarrow> ports = map (\<lambda>f. uint (port_of (fdt s1) f)) fds"
  show ?thesis
  proof (rule read_loop_rule [where I = ?I and Q = ?Q, OF run])
    show "?I 0 [] s1" by simp
  next
    fix i ports t r sa t1
    assume inv: "?I i ports t" and lt: "i < count"
      and get: "sys_getsockname E (fds ! nat i) t = (r, sa, t1)" and r: "0 \<le> r"
    from inv lt len have i: "nat i < length fds" "0 \<le> i" by auto
    from get r obtain so where so: "map_of (fdt t) (fds ! nat i) = Some so"
      "sa = (case so_local so of None \<Rightarrow> zero_sockaddr | Some a \<Rightarrow> a)"
      by (auto elim!: sys_getsockname_cases)
    have "read_port sa fam = uint (port_of (fdt s1) (fds ! nat i))"
      using so inv by (auto simp: read_port_def port_of_def zero_sockaddr_def split: option.splits)
    moreover have "take (nat (i + 1)) fds = take (nat i) fds @ [fds ! nat i]"
      using i by (simp add: nat_add_distrib take_Suc_conv_app_nth)
    moreover have "fdt t1 = fdt s1" using sys_getsockname_frame(1) [OF get] inv by simp
    ultimately show "?I (i + 1) (ports @ [read_port sa fam]) t1" using inv lt i by simp
  next
    fix i ports t
    assume inv: "?I i ports t" and stop: "\<not> i < count"
    with len have "nat i = length fds" by auto
    with inv show "?Q True ports t" by simp
  qed simp
qed

lemma batch_result:
  assumes run: "find_free_ports E count ty fam s = (rc, ports, s')"
  shows "(rc = 0 \<or> rc = - 1) \<and> (rc = 0 \<longrightarrow> nat count = length ports) \<and>
         (rc = 0 \<longrightarrow> ephemeral_unique E \<longrightarrow>
            distinct ports \<and> (\<forall>p \<in> set ports. 1 \<le> p \<and> p \<le> 65535))"
proof -
  obtain ok n fds s1 where l1: "open_bind_loop E count ty fam 0 [] s = (ok, n, fds, s1)"
    by (cases "open_bind_loop E count ty fam 0 [] s")
  obtain fin ps s2 where l2: "read_loop E count fam 0 fds [] s1 = (fin, ps, s2)"
    by (cases "read_loop E count fam 0 fds [] s1")
  from run l1 l2 have rc: "rc = 0 \<or> rc = - 1" and ok: "rc = 0 \<longrightarrow> ok \<and> fin \<and> ports = ps"
    by (auto simp: find_free_ports_def split: if_splits)
  have "nat count = length ports \<and>
      (ephemeral_unique E \<longrightarrow> distinct ports \<and> (\<forall>p \<in> set ports. 1 \<le> p \<and> p \<le> 65535))"
    if "rc = 0"
  proof -
    from that ok have *: "ok" "fin" "ports = ps" by simp_all
    from open_bind_frame [OF l1] * have len: "nat count = length fds" by simp
    from read_ports [OF l2 len] * have ports: "ports = map (\<lambda>f. uint (port_of (fdt s1) f)) fds"
      by simp
    have "distinct ports \<and> (\<forall>p \<in> set ports. 1 \<le> p \<and> p \<le> 65535)" if "ephemeral_unique E"
    proof -
      from open_bind_ports [OF l1 [unfolded *(1) [THEN eqTrueI]] that]
      have nz: "\<forall>f \<in> set fds. port_of (fdt s1) f \<noteq> 0"
        and d: "distinct (map (port_of (fdt s1)) fds)" by simp_all
      have "inj_on uint A" for A :: "16 word set" by (auto simp: inj_on_def word_uint_eq_iff)
      with d have "distinct (map uint (map (port_of (fdt s1)) fds))"
        by (subst distinct_map) simp
      then have "distinct ports" by (simp add: ports comp_def)
      moreover have "1 \<le> uint w \<and> uint w \<le> 65535" if "w \<noteq> 0" for w :: "16 word"
      proof -
        have "uint w \<noteq> 0" using that by (simp add: uint_0_iff)
        moreover have "0 \<le> uint w" by simp
        moreover have "uint w < 65536" using uint_bounded [of w] by simp
        ultimately show ?thesis by linarith
      qed
      ultimately show ?thesis using nz by (auto simp: ports)
    qed
    with len ports show ?thesis by simp
  qed
  with rc show ?thesis by blast
qed

text \<open>
  Claim C1.  Let the kernel keep its promise about ephemeral ports (a \<^verbatim>\<open>bind\<close> to port 0
  gets a port that is not 0 and that no open socket of the same kind holds).  Then for
  every \<open>count\<close> in \<open>[1, 1024]\<close>, a successful unconstrained batch acquisition returns
  exactly \<open>count\<close> ports, pairwise distinct, each in \<open>[1, 65535]\<close>.
\<close>

theorem batch_ports_distinct:
  assumes "1 \<le> count" "count \<le> MAX_PORTS" "ephemeral_unique E"
    and "find_free_ports E count ty fam s = (rc, ports, s')" "rc = 0"
  shows "int (length ports) = count \<and> distinct ports \<and> (\<forall>p \<in> set ports. 1 \<le> p \<and> p \<le> 65535)"
  using batch_result [OF assms(4)] assms(1,3,5) by auto

theorem batch_ports_distinct_witness:
  "(1 :: int) \<le> 2 \<and> 2 \<le> MAX_PORTS \<and> ephemeral_unique env_free \<and>
   find_free_ports env_free 2 SOCK_DGRAM AF_INET6 sys0 =
     (0, [32770, 32771], snd (snd (find_free_ports env_free 2 SOCK_DGRAM AF_INET6 sys0))) \<and>
   distinct [32770, 32771 :: int] \<and> set [32770, 32771 :: int] \<subseteq> {1..65535}"
proof -
  let ?r = "find_free_ports env_free 2 SOCK_DGRAM AF_INET6 sys0"
  have max: "(2 :: int) \<le> MAX_PORTS" by (simp add: MAX_PORTS_def)
  have contract: "ephemeral_unique env_free"
    by (auto simp: ephemeral_unique_def env_free_def pick_port_def Let_def split: if_splits)
  have rc: "fst ?r = 0" and ps: "fst (snd ?r) = [32770, 32771]" by code_simp+
  have r: "?r = (fst ?r, fst (snd ?r), snd (snd ?r))" by simp
  have run: "?r = (0, [32770, 32771], snd (snd ?r))" using r rc ps by metis
  from batch_ports_distinct [OF _ max contract r rc] max contract run ps show ?thesis
    by simp
qed

subsection \<open>The order of the system calls of the batch routine\<close>

lemma opened_append [simp]: "opened (es @ es') = opened es @ opened es'"
  by (induction es rule: opened.induct) simp_all

lemma ok_binds_append [simp]: "ok_binds (es @ es') = ok_binds es + ok_binds es'"
  by (induction es rule: ok_binds.induct) simp_all

lemma reads_append [simp]: "reads fam (es @ es') = reads fam es @ reads fam es'"
  by (induction fam es rule: reads.induct) simp_all

lemma getsockname_calls_append [simp]:
  "getsockname_calls (es @ es') = getsockname_calls es @ getsockname_calls es'"
  by (induction es rule: getsockname_calls.induct) simp_all

lemma closes_silent [simp]:
  "opened (map Close F) = []" "reads fam (map Close F) = []" "getsockname_calls (map Close F) = []"
  by (induction F) simp_all

lemma reads_after_binds_closes [simp]: "reads_after_binds k (map Close F)"
  by (induction F) simp_all

lemma reads_after_binds_zero [simp]: "reads_after_binds 0 es"
  by (induction "0 :: nat" es rule: reads_after_binds.induct) simp_all

lemma reads_after_binds_append:
  "getsockname_calls es = [] \<Longrightarrow>
   reads_after_binds k (es @ es') = reads_after_binds (k - ok_binds es) es'"
  by (induction k es rule: reads_after_binds.induct) simp_all

lemma no_reads: "getsockname_calls es = [] \<Longrightarrow> reads fam es = []"
  by (induction es rule: getsockname_calls.induct) simp_all

lemma open_bind_order:
  assumes run: "open_bind_loop E count ty fam 0 [] s = (ok, n, fds, s1)"
  shows "\<exists>es. trace s1 = trace s @ es \<and> getsockname_calls es = [] \<and>
           (ok \<longrightarrow> opened es = fds \<and> ok_binds es = length fds)"
proof -
  let ?I = "\<lambda>(i :: int) fds (t :: sys). \<exists>es. trace t = trace s @ es \<and>
      getsockname_calls es = [] \<and> opened es = fds \<and> ok_binds es = length fds"
  let ?Q = "\<lambda>ok (n :: int) fds (t :: sys). \<exists>es. trace t = trace s @ es \<and>
      getsockname_calls es = [] \<and> (ok \<longrightarrow> opened es = fds \<and> ok_binds es = length fds)"
  show ?thesis
  proof (rule open_bind_loop_rule [where I = ?I and Q = ?Q, OF run])
    show "?I 0 [] s" by simp
  next
    fix i fds t fd t1 r t2
    assume inv: "?I i fds t"
      and sock: "sys_socket E fam ty t = (fd, t1)" and fd: "0 \<le> fd"
      and bind: "sys_bind E fd (fst (setup_addr fam 0)) t1 = (r, t2)"
    from inv obtain es where es: "trace t = trace s @ es" "getsockname_calls es = []"
      "opened es = fds" "ok_binds es = length fds" by blast
    let ?new = "[Socket fam ty fd, Bind fd (fst (setup_addr fam 0)) r]"
    have tr: "trace t2 = trace s @ (es @ ?new)"
      using sys_socket_trace [OF sock] sys_bind_trace [OF bind] es(1) by simp
    have gs: "getsockname_calls (es @ ?new) = []" using es(2) by simp
    show "?I (i + 1) (fds @ [fd]) t2" if "0 \<le> r"
    proof -
      from that sys_bind_trace [OF bind] have "r = 0" by auto
      then have "opened (es @ ?new) = fds @ [fd]" "ok_binds (es @ ?new) = length (fds @ [fd])"
        using es(3,4) fd by simp_all
      with tr gs show ?thesis by blast
    qed
    have "trace (perror ''fp: bind'' t2) = trace s @ (es @ ?new)" using tr by simp
    with gs show "?Q False (i + 1) (fds @ [fd]) (perror ''fp: bind'' t2)" if "r < 0"
      by blast
  next
    fix i fds t fd t1
    assume inv: "?I i fds t" and sock: "sys_socket E fam ty t = (fd, t1)"
    from inv obtain es where es: "trace t = trace s @ es" "getsockname_calls es = []" by blast
    have "trace (perror ''fp: socket'' t1) = trace s @ (es @ [Socket fam ty fd])"
      using sys_socket_trace [OF sock] es(1) by simp
    moreover have "getsockname_calls (es @ [Socket fam ty fd]) = []" using es(2) by simp
    ultimately show "?Q False i (fds @ [fd]) (perror ''fp: socket'' t1)"
      by blast
  next
    fix i fds t
    assume "?I i fds t"
    then show "?Q True i fds t" by blast
  qed
qed

lemma read_order:
  assumes run: "read_loop E count fam 0 fds [] s1 = (ok, ports, s2)"
    and len: "nat count = length fds"
  shows "\<exists>es. trace s2 = trace s1 @ es \<and> opened es = [] \<and>
           (ok \<longrightarrow> reads fam es = zip fds ports \<and> length ports = length fds)"
proof -
  let ?I = "\<lambda>i ports (t :: sys). 0 \<le> i \<and> (i = 0 \<or> i \<le> count) \<and> length ports = nat i \<and>
      (\<exists>es. trace t = trace s1 @ es \<and> opened es = [] \<and> reads fam es = zip (take (nat i) fds) ports)"
  let ?Q = "\<lambda>ok ports (t :: sys). \<exists>es. trace t = trace s1 @ es \<and> opened es = [] \<and>
      (ok \<longrightarrow> reads fam es = zip fds ports \<and> length ports = length fds)"
  show ?thesis
  proof (rule read_loop_rule [where I = ?I and Q = ?Q, OF run])
    show "?I 0 [] s1" by simp
  next
    fix i ports t r sa t1
    assume inv: "?I i ports t" and lt: "i < count"
      and get: "sys_getsockname E (fds ! nat i) t = (r, sa, t1)"
    from inv obtain es where es: "trace t = trace s1 @ es" "opened es = []"
      "reads fam es = zip (take (nat i) fds) ports" and i0: "0 \<le> i" and lp: "length ports = nat i"
      by blast
    from lt len i0 have i: "nat i < length fds" by auto
    let ?e = "Getsockname (fds ! nat i) sa r"
    have tr: "trace t1 = trace s1 @ (es @ [?e])"
      using sys_getsockname_frame(4) [OF get] es(1) by simp
    have op: "opened (es @ [?e]) = []" using es(2) by simp
    show "?I (i + 1) (ports @ [read_port sa fam]) t1" if "0 \<le> r"
    proof -
      from that get have "r = 0" by (auto elim!: sys_getsockname_cases)
      moreover have "take (nat (i + 1)) fds = take (nat i) fds @ [fds ! nat i]"
        using i i0 by (simp add: nat_add_distrib take_Suc_conv_app_nth)
      ultimately have "reads fam (es @ [?e]) =
          zip (take (nat (i + 1)) fds) (ports @ [read_port sa fam])"
        using es(3) lp i by simp
      moreover have "length (ports @ [read_port sa fam]) = nat (i + 1)" "0 \<le> i + 1" "i + 1 \<le> count"
        using lp i0 lt by (simp_all add: nat_add_distrib)
      ultimately show ?thesis using tr op by blast
    qed
    have "trace (perror ''fp: getsockname'' t1) = trace s1 @ (es @ [?e])" using tr by simp
    with op show "?Q False ports (perror ''fp: getsockname'' t1)" if "r < 0"
      by blast
  next
    fix i ports t
    assume inv: "?I i ports t" and stop: "\<not> i < count"
    with len have "nat i = length fds" by auto
    with inv show "?Q True ports t" by auto
  qed
qed

lemma batch_order:
  assumes run: "find_free_ports E count ty fam s = (rc, ports, s')"
  shows "reads_after_binds (nat count) (new_events s s') \<and>
         (rc = 0 \<longrightarrow> reads fam (new_events s s') = zip (opened (new_events s s')) ports \<and>
            length (opened (new_events s s')) = nat count \<and> length ports = nat count)"
proof -
  obtain ok n fds s1 where l1: "open_bind_loop E count ty fam 0 [] s = (ok, n, fds, s1)"
    by (cases "open_bind_loop E count ty fam 0 [] s")
  from open_bind_order [OF l1] obtain es1 where es1: "trace s1 = trace s @ es1"
    "getsockname_calls es1 = []" "ok \<longrightarrow> opened es1 = fds \<and> ok_binds es1 = length fds"
    by blast
  from open_bind_frame [OF l1] have n: "nat n \<le> length fds"
    and len: "ok \<longrightarrow> nat count = length fds" by simp_all
  show ?thesis
  proof (cases ok)
    case False
    with run l1 have rc: "rc = - 1" and "s' = close_loop 0 n fds s1"
      by (simp_all add: find_free_ports_def)
    then have "s' = fold sys_close (take (nat n) fds) s1" using close_loop_take [OF n] by simp
    then have "new_events s s' = es1 @ map Close (take (nat n) fds)"
      using es1(1) by (simp add: new_events_def)
    then show ?thesis using es1(2) rc by (simp add: reads_after_binds_append)
  next
    case True
    with len es1(3) have len: "nat count = length fds" and o1: "opened es1 = fds"
      "ok_binds es1 = nat count" by simp_all
    obtain fin ps s2 where l2: "read_loop E count fam 0 fds [] s1 = (fin, ps, s2)"
      by (cases "read_loop E count fam 0 fds [] s1")
    from read_order [OF l2 len] obtain es2 where es2: "trace s2 = trace s1 @ es2"
      "opened es2 = []" "fin \<longrightarrow> reads fam es2 = zip fds ps \<and> length ps = length fds"
      by blast
    from True run l1 l2 have s': "s' = close_loop 0 count fds s2"
      and rc: "rc = 0 \<longrightarrow> fin \<and> ports = ps"
      by (auto simp: find_free_ports_def split: if_splits)
    from s' have "s' = fold sys_close fds s2" using close_loop_take [of count fds s2] len by simp
    then have ev: "new_events s s' = es1 @ es2 @ map Close fds"
      using es1(1) es2(1) by (simp add: new_events_def)
    have "reads_after_binds (nat count) (new_events s s')"
      using es1(2) o1(2) by (simp add: ev reads_after_binds_append)
    moreover have "reads fam (new_events s s') = zip (opened (new_events s s')) ports \<and>
        length (opened (new_events s s')) = nat count \<and> length ports = nat count" if "rc = 0"
      using that rc es2(2,3) o1(1) len no_reads [OF es1(2)] by (simp add: ev)
    ultimately show ?thesis by blast
  qed
qed



subsection \<open>The option loop and main\<close>

lemma range_found_length:
  assumes run: "range_loop E count lo rng start ty fam 0 0 [] s = (res, ports, s')"
  shows "res = Some f \<longrightarrow> f = int (length ports)"
proof -
  let ?I = "\<lambda>(i :: int) found ports (t :: sys). found = int (length ports)"
  let ?Q = "\<lambda>res ports (t :: sys). res = Some f \<longrightarrow> f = int (length ports)"
  show ?thesis
    by (rule range_loop_rule [where I = ?I and Q = ?Q, OF run]) auto
qed

lemma range_search_length:
  assumes run: "find_free_ports_range E count lo hi ty fam s = (rc, ports, s')"
  shows "rc = 0 \<and> int (length ports) = count \<or> rc = - 1"
proof -
  obtain res ps t where loop:
    "range_loop E count lo (hi - lo + 1) (start_offset (rand_val E) lo (hi - lo + 1)) ty fam 0 0 [] s
       = (res, ps, t)"
    by (cases "range_loop E count lo (hi - lo + 1) (start_offset (rand_val E) lo (hi - lo + 1)) ty fam 0 0 [] s")
  with run have "ps = ports" "rc = 0 \<or> rc = - 1" "rc = 0 \<longrightarrow> res = Some count"
    by (auto simp: find_free_ports_range_def Let_def split: option.splits if_splits)
  with range_found_length [OF loop, of count] show ?thesis by auto
qed

lemma parse_opts_config:
  assumes "parse_opts argv c s = (Inr c', s1)" "valid_config c"
  shows "s1 = s \<and> valid_config c'"
  using assms
  by (induction argv c s rule: parse_opts.induct)
    (auto simp: valid_config_def split: if_splits)

lemma parse_opts_exit:
  assumes "parse_opts argv c s = (Inl code, s1)"
  shows "fdt s1 = fdt s \<and> trace s1 = trace s \<and>
         (code = 1 \<and> stdout s1 = stdout s \<or>
          code = 0 \<and> (stdout s1 = stdout s @ [Version_line] \<or> stdout s1 = stdout s @ [Usage_text]))"
  using assms
  by (induction argv c s rule: parse_opts.induct) (auto split: if_splits)

lemma print_loop_stdout:
  assumes "nat n = length ports"
  shows "stdout (print_loop 0 n ports s) = stdout s @ map Port_line ports"
    and "trace (print_loop 0 n ports s) = trace s" and "fdt (print_loop 0 n ports s) = fdt s"
proof -
  have "map (\<lambda>k. Port_line (ports ! k)) [0..<length ports] = map Port_line (map ((!) ports) [0..<length ports])"
    by simp
  also have "\<dots> = map Port_line ports" by (simp only: map_nth)
  finally show "stdout (print_loop 0 n ports s) = stdout s @ map Port_line ports"
    using assms by (simp add: print_loop_fold)
  show "trace (print_loop 0 n ports s) = trace s" "fdt (print_loop 0 n ports s) = fdt s"
    by (simp_all add: print_loop_fold)
qed

text \<open>What \<^verbatim>\<open>main\<close> does once the options are parsed.\<close>

lemma main_parsed:
  assumes parse: "parse_opts argv initial_config s = (Inr c, s1)"
    and run: "main E argv s = (code, s')"
  shows "valid_config c \<and>
    (if c_use_range c \<and> c_count c > c_range_hi c - c_range_lo c + 1
     then code = 1 \<and> s' = eprint (Err_too_many (c_count c) (c_range_hi c - c_range_lo c + 1)) s
     else \<exists>rc ports s2.
       (if c_use_range c
        then find_free_ports_range E (c_count c) (c_range_lo c) (c_range_hi c) (c_socktype c) (c_family c) s
        else find_free_ports E (c_count c) (c_socktype c) (c_family c) s) = (rc, ports, s2) \<and>
       (if rc < 0 then code = 1 \<and> s' = eprint Err_no_free_port s2
        else code = 0 \<and> s' = print_loop 0 (c_count c) ports s2))"
proof -
  have "valid_config initial_config" by (simp add: valid_config_def initial_config_def MAX_PORTS_def)
  from parse_opts_config [OF parse this] have s1: "s1 = s" and v: "valid_config c" by simp_all
  show ?thesis
  proof (cases "c_use_range c \<and> c_count c > c_range_hi c - c_range_lo c + 1")
    case True
    with run parse s1 v show ?thesis by (auto simp: main_def)
  next
    case False
    let ?core = "if c_use_range c
        then find_free_ports_range E (c_count c) (c_range_lo c) (c_range_hi c) (c_socktype c) (c_family c) s
        else find_free_ports E (c_count c) (c_socktype c) (c_family c) s"
    obtain rc ports s2 where core: "?core = (rc, ports, s2)" by (cases ?core)
    from run parse s1 False core
    have "if rc < 0 then code = 1 \<and> s' = eprint Err_no_free_port s2
        else code = 0 \<and> s' = print_loop 0 (c_count c) ports s2"
      by (auto simp: main_def split: if_splits)
    with core False v show ?thesis by (simp only: if_False) blast
  qed
qed

lemma core_result:
  assumes "(if use then find_free_ports_range E count lo hi ty fam s
            else find_free_ports E count ty fam s) = (rc, ports, s2)"
  shows "stdout s2 = stdout s \<and> fdt s2 = fdt s \<and> (rc = 0 \<or> rc = - 1) \<and>
         (rc = 0 \<longrightarrow> nat count = length ports)"
proof (cases use)
  case True
  with assms have run: "find_free_ports_range E count lo hi ty fam s = (rc, ports, s2)" by simp
  obtain res ps t where loop:
    "range_loop E count lo (hi - lo + 1) (start_offset (rand_val E) lo (hi - lo + 1)) ty fam 0 0 [] s
       = (res, ps, t)"
    by (cases "range_loop E count lo (hi - lo + 1) (start_offset (rand_val E) lo (hi - lo + 1)) ty fam 0 0 [] s")
  with run have "ps = ports" "rc = 0 \<or> rc = - 1" "rc = 0 \<longrightarrow> res = Some count"
    by (auto simp: find_free_ports_range_def Let_def split: option.splits if_splits)
  with range_found_length [OF loop, of count] range_search_frame [OF run] show ?thesis by auto
next
  case False
  with assms have run: "find_free_ports E count ty fam s = (rc, ports, s2)" by simp
  from batch_result [OF run] batch_frame [OF run] show ?thesis by auto
qed

lemma main_result:
  assumes run: "main E argv s = (code, s')"
  shows "(code = 0 \<or> code = 1) \<and> fdt s' = fdt s \<and> (code \<noteq> 0 \<longrightarrow> stdout s' = stdout s) \<and>
    (code = 0 \<longrightarrow> stdout s' = stdout s @ [Version_line] \<or> stdout s' = stdout s @ [Usage_text] \<or>
       (\<exists>c ports. fst (parse_opts argv initial_config s) = Inr c \<and>
          int (length ports) = c_count c \<and> stdout s' = stdout s @ map Port_line ports))"
proof (cases "parse_opts argv initial_config s")
  case (Pair res s1)
  show ?thesis
  proof (cases res)
    case (Inl k)
    with Pair run have "code = k" "s' = s1" by (simp_all add: main_def)
    with parse_opts_exit [of argv initial_config s k s1] Pair Inl show ?thesis by auto
  next
    case (Inr c)
    with Pair have parse: "parse_opts argv initial_config s = (Inr c, s1)" by simp
    note m = main_parsed [OF parse run]
    then have v: "1 \<le> c_count c" by (simp add: valid_config_def)
    show ?thesis
    proof (cases "c_use_range c \<and> c_count c > c_range_hi c - c_range_lo c + 1")
      case True
      with m show ?thesis by simp
    next
      case False
      with m obtain rc ports s2 where
        core: "(if c_use_range c
          then find_free_ports_range E (c_count c) (c_range_lo c) (c_range_hi c) (c_socktype c) (c_family c) s
          else find_free_ports E (c_count c) (c_socktype c) (c_family c) s) = (rc, ports, s2)"
        and out: "if rc < 0 then code = 1 \<and> s' = eprint Err_no_free_port s2
          else code = 0 \<and> s' = print_loop 0 (c_count c) ports s2"
        by (simp only: if_False) blast
      note cr = core_result [OF core]
      show ?thesis
      proof (cases "rc < 0")
        case True
        with out cr show ?thesis by simp
      next
        case False
        with cr have rc: "rc = 0" and len: "nat (c_count c) = length ports" by auto
        with out have code: "code = 0" and s': "s' = print_loop 0 (c_count c) ports s2" by simp_all
        have "stdout s' = stdout s @ map Port_line ports" "fdt s' = fdt s"
          using print_loop_stdout [OF len, of s2] cr by (simp_all add: s')
        moreover have "int (length ports) = c_count c" using len v by simp
        ultimately show ?thesis using code parse by auto
      qed
    qed
  qed
qed

text \<open>
  Claim C3.  No partial result is returned.  Each acquisition routine returns 0, having
  written exactly \<open>count\<close> ports, or \<open>-1\<close>; a range search that has found fewer than
  \<open>count\<close> ports returns \<open>-1\<close>.  \<^verbatim>\<open>main\<close> reads the ports only after a result 0:
  when it exits with a non-zero status it has printed nothing on the standard output, and
  when it exits with 0 it has printed the version, the usage, or exactly \<open>count\<close> ports.
  (The cells of \<^verbatim>\<open>ports\<close> that a failed call has written stay in the caller's array,
  which \<^verbatim>\<open>main\<close> does not read then.)
\<close>

theorem no_partial_results:
  "(1 \<le> count \<and> count \<le> MAX_PORTS \<and> find_free_ports E count ty fam s = (rc, ports, s1) \<longrightarrow>
      rc = 0 \<and> int (length ports) = count \<or> rc = - 1) \<and>
   (find_free_ports_range E count lo hi ty fam s = (rc2, ports2, s2) \<longrightarrow>
      (rc2 = 0 \<and> int (length ports2) = count \<or> rc2 = - 1) \<and>
      (int (length ports2) < count \<longrightarrow> rc2 = - 1)) \<and>
   (main E argv s = (code, s') \<longrightarrow>
      (code = 0 \<or> code = 1) \<and>
      (code \<noteq> 0 \<longrightarrow> stdout s' = stdout s) \<and>
      (code = 0 \<longrightarrow>
         stdout s' = stdout s @ [Version_line] \<or> stdout s' = stdout s @ [Usage_text] \<or>
         (\<exists>c ps. fst (parse_opts argv initial_config s) = Inr c \<and>
            int (length ps) = c_count c \<and> stdout s' = stdout s @ map Port_line ps)))"
proof (intro conjI impI)
  assume "1 \<le> count \<and> count \<le> MAX_PORTS \<and> find_free_ports E count ty fam s = (rc, ports, s1)"
  then show "rc = 0 \<and> int (length ports) = count \<or> rc = - 1"
    using batch_result [of E count ty fam s rc ports s1] by auto
next
  assume run: "find_free_ports_range E count lo hi ty fam s = (rc2, ports2, s2)"
  from range_search_length [OF run] show "rc2 = 0 \<and> int (length ports2) = count \<or> rc2 = - 1" .
  assume "int (length ports2) < count"
  with range_search_length [OF run] show "rc2 = - 1" by auto
next
  assume run: "main E argv s = (code, s')"
  note m = main_result [OF run]
  from m show "code = 0 \<or> code = 1" by blast
  { assume "code \<noteq> 0" with m show "stdout s' = stdout s" by blast }
  { assume "code = 0"
    with m show "stdout s' = stdout s @ [Version_line] \<or> stdout s' = stdout s @ [Usage_text] \<or>
         (\<exists>c ps. fst (parse_opts argv initial_config s) = Inr c \<and>
            int (length ps) = c_count c \<and> stdout s' = stdout s @ map Port_line ps)" by blast }
qed

theorem no_partial_results_witness:
  "(1 :: int) \<le> 3 \<and> 3 \<le> MAX_PORTS \<and>
   fst (find_free_ports env_getsockname_fails 3 SOCK_STREAM AF_INET sys0) = - 1 \<and>
   find_free_ports_range env_busy_8001 3 8000 8002 SOCK_STREAM AF_INET sys0 =
     (- 1, [8002, 8000], snd (snd (find_free_ports_range env_busy_8001 3 8000 8002 SOCK_STREAM AF_INET sys0))) \<and>
   fst (main env_busy_8001 [Opt_n 3, Opt_r (Some (8000, 8002))] sys0) = 1 \<and>
   stdout (snd (main env_busy_8001 [Opt_n 3, Opt_r (Some (8000, 8002))] sys0)) = stdout sys0 \<and>
   fst (main env_free [Opt_n 3] sys0) = 0 \<and>
   stdout (snd (main env_free [Opt_n 3] sys0)) =
     stdout sys0 @ map Port_line [32770, 32771, 32772]"
proof -
  let ?a = "find_free_ports env_getsockname_fails 3 SOCK_STREAM AF_INET sys0"
  let ?b = "find_free_ports_range env_busy_8001 3 8000 8002 SOCK_STREAM AF_INET sys0"
  let ?m = "main env_busy_8001 [Opt_n 3, Opt_r (Some (8000, 8002))] sys0"
  let ?n = "main env_free [Opt_n 3] sys0"
  have max: "(3 :: int) \<le> MAX_PORTS" by (simp add: MAX_PORTS_def)
  have a: "?a = (fst ?a, fst (snd ?a), snd (snd ?a))" and b: "?b = (fst ?b, fst (snd ?b), snd (snd ?b))"
    and m: "?m = (fst ?m, snd ?m)" and n: "?n = (fst ?n, snd ?n)"
    by simp_all
  have ps: "fst (snd ?b) = [8002, 8000]" and cn: "fst ?n = 0"
    and out: "stdout (snd ?n) = stdout sys0 @ map Port_line [32770, 32771, 32772]"
    and cm: "fst ?m \<noteq> 0"
    by code_simp+
  from no_partial_results [where count = 3 and E = env_getsockname_fails and ty = SOCK_STREAM
      and fam = AF_INET and s = sys0 and rc = "fst ?a" and ports = "fst (snd ?a)"
      and ?s1.0 = "snd (snd ?a)"]
  have "fst ?a = 0 \<and> int (length (fst (snd ?a))) = 3 \<or> fst ?a = - 1" using max a by simp
  moreover have "fst ?a \<noteq> 0" by code_simp
  ultimately have ra: "fst ?a = - 1" by blast
  from no_partial_results [where count = 3 and E = env_busy_8001 and ty = SOCK_STREAM
      and fam = AF_INET and s = sys0 and lo = 8000 and hi = 8002 and ?rc2.0 = "fst ?b"
      and ?ports2.0 = "fst (snd ?b)" and ?s2.0 = "snd (snd ?b)"
      and argv = "[Opt_n 3, Opt_r (Some (8000, 8002))]" and code = "fst ?m" and s' = "snd ?m"]
  have rb: "fst ?b = - 1" and om: "fst ?m = 1" "stdout (snd ?m) = stdout sys0"
    using b m ps cm by auto
  have "?b = (- 1, [8002, 8000], snd (snd ?b))" using b rb ps by metis
  with max ra om cn out show ?thesis by simp
qed

lemma parse_invalid_option:
  assumes "Opt_v \<notin> set pre" "Opt_h \<notin> set pre" "invalid_opt bad"
  shows "\<exists>m. parse_opts (pre @ bad # post) c s = (Inl 1, eprint m s)"
  using assms
proof (induction pre arbitrary: c)
  case Nil
  then show ?case by (cases "(bad # post, c, s)" rule: parse_opts.cases) auto
next
  case (Cons x pre)
  then have IH: "\<And>c. \<exists>m. parse_opts (pre @ bad # post) c s = (Inl 1, eprint m s)" by simp
  from Cons.prems show ?case
    by (cases "(x # pre, c, s)" rule: parse_opts.cases) (use IH in auto)
qed

text \<open>
  Claim C6.  An invalid configuration is rejected before any system call.  When the
  option loop reaches an option with a count outside \<open>[1, 1024]\<close> or a range with
  \<open>lo < 1\<close>, \<open>hi > 65535\<close> or \<open>lo > hi\<close> (no \<^verbatim>\<open>-v\<close> or \<^verbatim>\<open>-h\<close>, which end the program
  at once, comes before it), and when the parsed count exceeds the size of the parsed
  range, \<^verbatim>\<open>main\<close> exits with status 1, having made no system call and printed no port.
  Conversely, whenever \<^verbatim>\<open>main\<close> makes a system call, for any command line, the
  configuration it has parsed is within the bounds and the count fits the range.
\<close>

theorem invalid_configuration_rejected:
  "(Opt_v \<notin> set pre \<and> Opt_h \<notin> set pre \<and> invalid_opt bad \<and>
    main E (pre @ bad # post) s = (code, s') \<longrightarrow>
      code = 1 \<and> trace s' = trace s \<and> fdt s' = fdt s \<and> stdout s' = stdout s) \<and>
   (parse_opts argv initial_config s = (Inr c, s1) \<and> c_use_range c \<and>
    c_count c > c_range_hi c - c_range_lo c + 1 \<and> main E argv s = (code2, s2) \<longrightarrow>
      code2 = 1 \<and> trace s2 = trace s \<and> fdt s2 = fdt s \<and> stdout s2 = stdout s) \<and>
   (main E args s = (code3, s3) \<and> trace s3 \<noteq> trace s \<longrightarrow>
      (\<exists>c. parse_opts args initial_config s = (Inr c, s) \<and> valid_config c \<and>
         (c_use_range c \<longrightarrow> c_count c \<le> c_range_hi c - c_range_lo c + 1)))"
proof -
  have one: "code = 1 \<and> trace s' = trace s \<and> fdt s' = fdt s \<and> stdout s' = stdout s"
    if a: "Opt_v \<notin> set pre \<and> Opt_h \<notin> set pre \<and> invalid_opt bad \<and>
      main E (pre @ bad # post) s = (code, s')"
  proof -
    from a obtain m where "parse_opts (pre @ bad # post) initial_config s = (Inl 1, eprint m s)"
      using parse_invalid_option [of pre bad post initial_config s] by blast
    with a have "code = 1" "s' = eprint m s" by (simp_all add: main_def)
    then show ?thesis by simp
  qed
  have two: "code2 = 1 \<and> trace s2 = trace s \<and> fdt s2 = fdt s \<and> stdout s2 = stdout s"
    if a: "parse_opts argv initial_config s = (Inr c, s1) \<and> c_use_range c \<and>
      c_count c > c_range_hi c - c_range_lo c + 1 \<and> main E argv s = (code2, s2)"
  proof -
    from a have "parse_opts argv initial_config s = (Inr c, s1)" "main E argv s = (code2, s2)"
      by simp_all
    from main_parsed [OF this] a show ?thesis by simp
  qed
  have three: "\<exists>c. parse_opts args initial_config s = (Inr c, s) \<and> valid_config c \<and>
         (c_use_range c \<longrightarrow> c_count c \<le> c_range_hi c - c_range_lo c + 1)"
    if a: "main E args s = (code3, s3) \<and> trace s3 \<noteq> trace s"
  proof -
    obtain res t where p: "parse_opts args initial_config s = (res, t)"
      by (cases "parse_opts args initial_config s")
    show ?thesis
    proof (cases res)
      case (Inl k)
      with p a have "s3 = t" by (simp add: main_def)
      with parse_opts_exit [of args initial_config s k t] p Inl a show ?thesis by simp
    next
      case (Inr c)
      with p have parse: "parse_opts args initial_config s = (Inr c, t)" by simp
      have "valid_config initial_config"
        by (simp add: valid_config_def initial_config_def MAX_PORTS_def)
      from parse_opts_config [OF parse this] have t: "t = s" by simp
      from a have run: "main E args s = (code3, s3)" by simp
      note m = main_parsed [OF parse run]
      have "\<not> (c_use_range c \<and> c_count c > c_range_hi c - c_range_lo c + 1)"
      proof
        assume "c_use_range c \<and> c_count c > c_range_hi c - c_range_lo c + 1"
        with m have "trace s3 = trace s" by simp
        with a show False by simp
      qed
      with m parse t show ?thesis by auto
    qed
  qed
  from one two three show ?thesis by blast
qed

theorem invalid_configuration_rejected_witness:
  "Opt_v \<notin> set [Opt_u] \<and> Opt_h \<notin> set [Opt_u] \<and> invalid_opt (Opt_n 0) \<and>
   main env_free ([Opt_u] @ Opt_n 0 # [Opt_6]) sys0 = (1, eprint Err_count sys0) \<and>
   invalid_opt (Opt_r (Some (100, 50))) \<and>
   main env_free ([] @ Opt_r (Some (100, 50)) # []) sys0 = (1, eprint Err_range sys0) \<and>
   main env_free [Opt_n 200, Opt_r (Some (8000, 8010))] sys0 = (1, eprint (Err_too_many 200 11) sys0) \<and>
   trace (snd (main env_free [Opt_n 2] sys0)) \<noteq> trace sys0 \<and>
   (\<exists>c. parse_opts [Opt_n 2] initial_config sys0 = (Inr c, sys0) \<and> valid_config c)"
proof -
  let ?a = "main env_free ([Opt_u] @ Opt_n 0 # [Opt_6]) sys0"
  let ?b = "main env_free ([] @ Opt_r (Some (100, 50)) # []) sys0"
  let ?c = "main env_free [Opt_n 200, Opt_r (Some (8000, 8010))] sys0"
  let ?d = "main env_free [Opt_n 2] sys0"
  have inv: "invalid_opt (Opt_n 0)" "invalid_opt (Opt_r (Some (100, 50)))" by simp_all
  have a: "?a = (1, eprint Err_count sys0)" and b: "?b = (1, eprint Err_range sys0)"
    and c: "?c = (1, eprint (Err_too_many 200 11) sys0)"
    by (simp_all add: main_def initial_config_def MAX_PORTS_def)
  have p: "parse_opts [Opt_n 200, Opt_r (Some (8000, 8010))] initial_config sys0
      = (Inr (initial_config\<lparr>c_count := 200, c_range_lo := 8000, c_range_hi := 8010, c_use_range := True\<rparr>), sys0)"
    by (simp add: MAX_PORTS_def)
  have d: "?d = (fst ?d, snd ?d)" by simp
  have tr: "trace (snd ?d) \<noteq> trace sys0" by code_simp
  from invalid_configuration_rejected [where pre = "[Opt_u]" and bad = "Opt_n 0" and post = "[Opt_6]"
      and E = env_free and s = sys0 and code = 1 and s' = "eprint Err_count sys0"
      and argv = "[Opt_n 200, Opt_r (Some (8000, 8010))]"
      and c = "initial_config\<lparr>c_count := 200, c_range_lo := 8000, c_range_hi := 8010, c_use_range := True\<rparr>"
      and ?s1.0 = sys0 and ?code2.0 = 1 and ?s2.0 = "eprint (Err_too_many 200 11) sys0"
      and args = "[Opt_n 2]" and ?code3.0 = "fst ?d" and ?s3.0 = "snd ?d"]
  have "\<exists>c. parse_opts [Opt_n 2] initial_config sys0 = (Inr c, sys0) \<and> valid_config c"
    using d tr by blast
  with inv a b c tr show ?thesis by simp
qed

subsection \<open>Failures during the scan\<close>

lemma socket_calls_append [simp]: "socket_calls (es @ es') = socket_calls es @ socket_calls es'"
  by (induction es rule: socket_calls.induct) simp_all

lemma scan_socket_failure:
  assumes run: "range_loop E count lo rng start ty fam i found ports s = (res, ports', s')"
  shows "\<exists>es. trace s' = trace s @ es \<and>
           (case res of
              None \<Rightarrow> es \<noteq> [] \<and> last es = Socket fam ty (- 1)
            | Some f \<Rightarrow> \<forall>r \<in> set (socket_calls es). 0 \<le> r)"
proof -
  let ?I = "\<lambda>(i :: int) (found :: int) (ports :: int list) (t :: sys).
      \<exists>es. trace t = trace s @ es \<and> (\<forall>r \<in> set (socket_calls es). 0 \<le> r)"
  let ?Q = "\<lambda>res (ports :: int list) (t :: sys). \<exists>es. trace t = trace s @ es \<and>
           (case res of
              None \<Rightarrow> es \<noteq> [] \<and> last es = Socket fam ty (- 1)
            | Some (f :: int) \<Rightarrow> \<forall>r \<in> set (socket_calls es). 0 \<le> r)"
  show ?thesis
  proof (rule range_loop_rule [where I = ?I and Q = ?Q, OF run])
    show "?I i found ports s" by simp
  next
    fix i found ports t fd s1 r s2
    assume inv: "?I i found ports t"
      and sock: "sys_socket E fam ty t = (fd, s1)" and fd: "0 \<le> fd"
      and bind: "sys_bind E fd (fst (setup_addr fam (candidate lo rng start i))) s1 = (r, s2)"
    from inv obtain es where es: "trace t = trace s @ es" "\<forall>r \<in> set (socket_calls es). 0 \<le> r"
      by blast
    let ?new = "[Socket fam ty fd, Bind fd (fst (setup_addr fam (candidate lo rng start i))) r, Close fd]"
    have "trace (sys_close fd s2) = trace s @ (es @ ?new)"
      using probe_frame(2) [OF sock fd bind] es(1) by simp
    moreover have "\<forall>r \<in> set (socket_calls (es @ ?new)). 0 \<le> r" using es(2) fd by simp
    ultimately show "?I (i + 1) (if r = 0 then found + 1 else found)
        (if r = 0 then ports @ [candidate lo rng start i] else ports) (sys_close fd s2)"
      by blast
  next
    fix i found ports t fd s1
    assume inv: "?I i found ports t" and sock: "sys_socket E fam ty t = (fd, s1)" and fd: "fd < 0"
    from inv obtain es where es: "trace t = trace s @ es" by blast
    from sock fd have "fd = - 1" by (auto elim!: sys_socket_cases)
    then have "trace s1 = trace s @ (es @ [Socket fam ty (- 1)])"
      using sys_socket_trace [OF sock] es by simp
    moreover have "es @ [Socket fam ty (- 1)] \<noteq> []"
      "last (es @ [Socket fam ty (- 1)]) = Socket fam ty (- 1)" by simp_all
    ultimately have "\<exists>es. trace s1 = trace s @ es \<and> es \<noteq> [] \<and> last es = Socket fam ty (- 1)"
      by blast
    then show "?Q None ports s1" by simp
  next
    fix i found ports t
    assume "?I i found ports t"
    then show "?Q (Some found) ports t" by simp
  qed
qed



text \<open>
  Claim C10.  In the scan, a failed \<^verbatim>\<open>socket\<close> call ends the search at once with the
  result \<open>-1\<close>, whatever has been found: the loop returns without another system call, and
  in a whole run a failed \<^verbatim>\<open>socket\<close> call is the last event and the result is \<open>-1\<close>.
  A failed \<^verbatim>\<open>bind\<close> only moves the scan on to the next candidate, with the ports found
  so far unchanged, once the socket is closed.
\<close>

theorem socket_failure_ends_scan_bind_failure_advances:
  "(i < rng \<and> found < count \<and> sys_socket E fam ty s = (fd, s1) \<and> fd < 0 \<longrightarrow>
      range_loop E count lo rng start ty fam i found ports s = (None, ports, s1)) \<and>
   (i < rng \<and> found < count \<and> sys_socket E fam ty s = (fd, s1) \<and> 0 \<le> fd \<and>
    sys_bind E fd (fst (setup_addr fam (candidate lo rng start i))) s1 = (r, s2) \<and> r \<noteq> 0 \<longrightarrow>
      range_loop E count lo rng start ty fam i found ports s =
        range_loop E count lo rng start ty fam (i + 1) found ports (sys_close fd s2)) \<and>
   (find_free_ports_range E count lo hi ty fam s = (rc, ps, s') \<and>
    (\<exists>x \<in> set (socket_calls (new_events s s')). x < 0) \<longrightarrow>
      rc = - 1 \<and> last (new_events s s') = Socket fam ty (- 1))"
proof -
  have one: "range_loop E count lo rng start ty fam i found ports s = (None, ports, s1)"
    if "i < rng \<and> found < count \<and> sys_socket E fam ty s = (fd, s1) \<and> fd < 0"
    using that by (simp add: range_loop.simps [of E count lo rng start ty fam i] Let_def)
  have two: "range_loop E count lo rng start ty fam i found ports s =
        range_loop E count lo rng start ty fam (i + 1) found ports (sys_close fd s2)"
    if "i < rng \<and> found < count \<and> sys_socket E fam ty s = (fd, s1) \<and> 0 \<le> fd \<and>
      sys_bind E fd (fst (setup_addr fam (candidate lo rng start i))) s1 = (r, s2) \<and> r \<noteq> 0"
    using that
    by (simp add: range_loop.simps [of E count lo rng start ty fam i] Let_def case_prod_beta)
  have three: "rc = - 1 \<and> last (new_events s s') = Socket fam ty (- 1)"
    if a: "find_free_ports_range E count lo hi ty fam s = (rc, ps, s') \<and>
      (\<exists>x \<in> set (socket_calls (new_events s s')). x < 0)"
  proof -
    let ?n = "hi - lo + 1"
    let ?st = "start_offset (rand_val E) lo ?n"
    obtain res qs t where loop: "range_loop E count lo ?n ?st ty fam 0 0 [] s = (res, qs, t)"
      by (cases "range_loop E count lo ?n ?st ty fam 0 0 [] s")
    with a have t: "t = s'" and rc: "res = None \<longrightarrow> rc = - 1"
      by (auto simp: find_free_ports_range_def Let_def split: option.splits if_splits)
    from scan_socket_failure [OF loop] t obtain es where es: "trace s' = trace s @ es"
      "case res of None \<Rightarrow> es \<noteq> [] \<and> last es = Socket fam ty (- 1)
       | Some f \<Rightarrow> \<forall>r \<in> set (socket_calls es). 0 \<le> r"
      by blast
    have ev: "new_events s s' = es" using es(1) by (simp add: new_events_def)
    with a es(2) have "res = None" by (cases res) auto
    with es(2) rc ev show ?thesis by simp
  qed
  from one two three show ?thesis by blast
qed

theorem socket_failure_ends_scan_bind_failure_advances_witness:
  "find_free_ports_range env_one_socket 2 8000 8002 SOCK_STREAM AF_INET sys0 =
     (- 1, [8001], snd (snd (find_free_ports_range env_one_socket 2 8000 8002 SOCK_STREAM AF_INET sys0))) \<and>
   socket_calls (new_events sys0
     (snd (snd (find_free_ports_range env_one_socket 2 8000 8002 SOCK_STREAM AF_INET sys0)))) = [1, - 1] \<and>
   last (new_events sys0
     (snd (snd (find_free_ports_range env_one_socket 2 8000 8002 SOCK_STREAM AF_INET sys0))))
     = Socket AF_INET SOCK_STREAM (- 1) \<and>
   fst (sys_socket env_no_socket AF_INET SOCK_STREAM sys0) < 0 \<and>
   range_loop env_no_socket 2 8000 3 8001 SOCK_STREAM AF_INET 1 1 [8001] sys0 =
     (None, [8001], snd (sys_socket env_no_socket AF_INET SOCK_STREAM sys0)) \<and>
   fst (sys_bind env_all_busy 1 (fst (setup_addr AF_INET (candidate 8000 3 8001 1)))
         (snd (sys_socket env_all_busy AF_INET SOCK_STREAM sys0))) \<noteq> 0 \<and>
   range_loop env_all_busy 2 8000 3 8001 SOCK_STREAM AF_INET 1 1 [8001] sys0 =
     range_loop env_all_busy 2 8000 3 8001 SOCK_STREAM AF_INET (1 + 1) 1 [8001]
       (sys_close 1 (snd (sys_bind env_all_busy 1 (fst (setup_addr AF_INET (candidate 8000 3 8001 1)))
         (snd (sys_socket env_all_busy AF_INET SOCK_STREAM sys0)))))"
proof -
  let ?r = "find_free_ports_range env_one_socket 2 8000 8002 SOCK_STREAM AF_INET sys0"
  let ?ev = "new_events sys0 (snd (snd ?r))"
  let ?s1 = "sys_socket env_no_socket AF_INET SOCK_STREAM sys0"
  let ?t1 = "sys_socket env_all_busy AF_INET SOCK_STREAM sys0"
  let ?b = "sys_bind env_all_busy 1 (fst (setup_addr AF_INET (candidate 8000 3 8001 1))) (snd ?t1)"
  have r: "?r = (fst ?r, fst (snd ?r), snd (snd ?r))" by simp
  have ps: "fst (snd ?r) = [8001]" and sc: "socket_calls ?ev = [1, - 1]" by code_simp+
  have s1a: "?s1 = (fst ?s1, snd ?s1)" by simp
  have s1b: "fst ?s1 < 0" by code_simp
  note s1 = s1a s1b
  have "fst ?t1 = 1" by code_simp
  then have t1a: "?t1 = (1, snd ?t1)" by (metis prod.collapse)
  have t1b: "?b = (fst ?b, snd ?b)" by simp
  have t1c: "fst ?b \<noteq> 0" by code_simp
  note t1 = t1a t1b t1c
  have ex: "\<exists>x \<in> set (socket_calls ?ev). x < 0" by (simp add: sc)
  from socket_failure_ends_scan_bind_failure_advances [where E = env_one_socket and count = 2 and lo = 8000 and hi = 8002 and ty = SOCK_STREAM
      and fam = AF_INET and s = sys0 and rc = "fst ?r" and ps = "fst (snd ?r)" and s' = "snd (snd ?r)"]
    r ex
  have three: "fst ?r = - 1" "last ?ev = Socket AF_INET SOCK_STREAM (- 1)" by blast+
  from socket_failure_ends_scan_bind_failure_advances [where E = env_no_socket and count = 2 and rng = 3 and i = 1 and found = 1
      and fam = AF_INET and ty = SOCK_STREAM and s = sys0 and fd = "fst ?s1" and ?s1.0 = "snd ?s1"
      and lo = 8000 and start = 8001 and ports = "[8001]"] s1
  have one: "range_loop env_no_socket 2 8000 3 8001 SOCK_STREAM AF_INET 1 1 [8001] sys0 =
     (None, [8001], snd ?s1)" by simp
  from socket_failure_ends_scan_bind_failure_advances [where E = env_all_busy and count = 2 and rng = 3 and i = 1 and found = 1
      and fam = AF_INET and ty = SOCK_STREAM and s = sys0 and fd = 1 and ?s1.0 = "snd ?t1"
      and lo = 8000 and start = 8001 and ports = "[8001]" and r = "fst ?b" and ?s2.0 = "snd ?b"] t1
  have two: "range_loop env_all_busy 2 8000 3 8001 SOCK_STREAM AF_INET 1 1 [8001] sys0 =
     range_loop env_all_busy 2 8000 3 8001 SOCK_STREAM AF_INET (1 + 1) 1 [8001] (sys_close 1 (snd ?b))"
    by simp
  have "?r = (- 1, [8001], snd (snd ?r))" using r three(1) ps by metis
  with sc three(2) s1(2) one t1(3) two show ?thesis by blast
qed

subsection \<open>What a failure tells the caller\<close>

lemma sys_socket_stderr: "sys_socket E fam ty s = (fd, s1) \<Longrightarrow> stderr s1 = stderr s"
  by (erule sys_socket_cases) simp_all

lemma sys_bind_stderr: "sys_bind E fd sa s = (r, s2) \<Longrightarrow> stderr s2 = stderr s"
  by (erule sys_bind_cases) simp_all

lemma batch_stderr:
  assumes run: "find_free_ports E count ty fam s = (rc, ports, s')"
  shows "rc = 0 \<and> stderr s' = stderr s \<or>
         rc = - 1 \<and> (\<exists>m \<in> {''fp: socket'', ''fp: bind'', ''fp: getsockname''}.
                       stderr s' = stderr s @ [Perror m])"
proof -
  obtain ok n fds s1 where l1: "open_bind_loop E count ty fam 0 [] s = (ok, n, fds, s1)"
    by (cases "open_bind_loop E count ty fam 0 [] s")
  let ?I = "\<lambda>(i :: int) (fds :: int list) (t :: sys). stderr t = stderr s"
  let ?Q = "\<lambda>ok (n :: int) (fds :: int list) (t :: sys).
      if ok then stderr t = stderr s
      else stderr t = stderr s @ [Perror ''fp: socket''] \<or> stderr t = stderr s @ [Perror ''fp: bind'']"
  have e1: "?Q ok n fds s1"
  proof (rule open_bind_loop_rule [where I = ?I and Q = ?Q, OF l1])
    fix i fds t fd t1 r t2
    assume inv: "?I i fds t" and sock: "sys_socket E fam ty t = (fd, t1)"
    then show "?Q False i (fds @ [fd]) (perror ''fp: socket'' t1)"
      using sys_socket_stderr [OF sock] by simp
    assume bind: "sys_bind E fd (fst (setup_addr fam 0)) t1 = (r, t2)"
    from inv show "?I (i + 1) (fds @ [fd]) t2"
      "?Q False (i + 1) (fds @ [fd]) (perror ''fp: bind'' t2)"
      using sys_socket_stderr [OF sock] sys_bind_stderr [OF bind] by simp_all
  qed simp_all
  from open_bind_frame [OF l1] have n: "nat n \<le> length fds"
    and len: "ok \<longrightarrow> nat count = length fds" by simp_all
  show ?thesis
  proof (cases ok)
    case False
    with run l1 have "rc = - 1" "s' = close_loop 0 n fds s1"
      by (simp_all add: find_free_ports_def)
    with e1 False close_loop_take [OF n, of s1] show ?thesis by auto
  next
    case True
    obtain fin ps s2 where l2: "read_loop E count fam 0 fds [] s1 = (fin, ps, s2)"
      by (cases "read_loop E count fam 0 fds [] s1")
    let ?J = "\<lambda>(i :: int) (ports :: int list) (t :: sys). stderr t = stderr s1"
    let ?R = "\<lambda>ok (ports :: int list) (t :: sys).
      if ok then stderr t = stderr s1 else stderr t = stderr s1 @ [Perror ''fp: getsockname'']"
    have e2: "?R fin ps s2"
      by (rule read_loop_rule [where I = ?J and Q = ?R, OF l2])
        (auto dest: sys_getsockname_frame(3))
    from True run l1 l2 have "s' = close_loop 0 count fds s2" "if fin then rc = 0 else rc = - 1"
      by (auto simp: find_free_ports_def split: if_splits)
    with e1 e2 True len close_loop_take [of count fds s2] show ?thesis
      by (cases fin) auto
  qed
qed

lemma main_core_failure:
  assumes run: "main E argv s = (code, s')" and "trace s' \<noteq> trace s" "code \<noteq> 0"
  shows "code = 1 \<and> stderr s' \<noteq> [] \<and> last (stderr s') = Err_no_free_port"
proof -
  obtain res t where p: "parse_opts argv initial_config s = (res, t)"
    by (cases "parse_opts argv initial_config s")
  show ?thesis
  proof (cases res)
    case (Inl k)
    with p run have "s' = t" by (simp add: main_def)
    with parse_opts_exit [of argv initial_config s k t] p Inl assms(2) show ?thesis by simp
  next
    case (Inr c)
    with p have parse: "parse_opts argv initial_config s = (Inr c, t)" by simp
    note m = main_parsed [OF parse run]
    have size: "\<not> (c_use_range c \<and> c_count c > c_range_hi c - c_range_lo c + 1)"
    proof
      assume "c_use_range c \<and> c_count c > c_range_hi c - c_range_lo c + 1"
      with m have "trace s' = trace s" by simp
      with assms(2) show False by simp
    qed
    with m obtain rc :: int and ports s2 where
      out: "if rc < 0 then code = 1 \<and> s' = eprint Err_no_free_port s2
          else code = 0 \<and> s' = print_loop 0 (c_count c) ports s2"
      by (simp only: if_False) blast
    with assms(3) show ?thesis by (cases "rc < 0") simp_all
  qed
qed

text \<open>
  Claim C7, as the program has it.  The failure signal of the core is the single value
  \<open>-1\<close>.  The range search returns 0 or \<open>-1\<close> and writes nothing on either stream, so
  that an exhausted scan and a failed \<^verbatim>\<open>socket\<close> call reach the caller as the same
  \<open>-1\<close>.  The unconstrained routine returns 0, or \<open>-1\<close> after one \<^verbatim>\<open>perror\<close> line
  naming the system call that failed.  After any failure of the core \<^verbatim>\<open>main\<close> exits
  with status 1 and the one message \<^verbatim>\<open>could not find free port(s)\<close>.
\<close>

theorem failure_signal_is_minus_one:
  "(find_free_ports_range E count lo hi ty fam s = (rc, ports, s') \<longrightarrow>
      (rc = 0 \<or> rc = - 1) \<and> stderr s' = stderr s \<and> stdout s' = stdout s) \<and>
   (find_free_ports E count ty fam s = (rc2, ports2, s2) \<longrightarrow>
      rc2 = 0 \<and> stderr s2 = stderr s \<or>
      rc2 = - 1 \<and> (\<exists>m \<in> {''fp: socket'', ''fp: bind'', ''fp: getsockname''}.
                     stderr s2 = stderr s @ [Perror m])) \<and>
   (main E argv s = (code, s3) \<and> trace s3 \<noteq> trace s \<and> code \<noteq> 0 \<longrightarrow>
      code = 1 \<and> stderr s3 \<noteq> [] \<and> last (stderr s3) = Err_no_free_port)"
proof -
  have "(rc = 0 \<or> rc = - 1) \<and> stderr s' = stderr s \<and> stdout s' = stdout s"
    if "find_free_ports_range E count lo hi ty fam s = (rc, ports, s')"
    using range_search_length [OF that] range_search_frame [OF that] by auto
  moreover have "rc2 = 0 \<and> stderr s2 = stderr s \<or>
      rc2 = - 1 \<and> (\<exists>m \<in> {''fp: socket'', ''fp: bind'', ''fp: getsockname''}.
                     stderr s2 = stderr s @ [Perror m])"
    if "find_free_ports E count ty fam s = (rc2, ports2, s2)"
    using batch_stderr [OF that] .
  moreover have "code = 1 \<and> stderr s3 \<noteq> [] \<and> last (stderr s3) = Err_no_free_port"
    if "main E argv s = (code, s3) \<and> trace s3 \<noteq> trace s \<and> code \<noteq> 0"
    using main_core_failure [of E argv s code s3] that by blast
  ultimately show ?thesis by blast
qed

theorem failure_signal_is_minus_one_witness:
  "find_free_ports_range env_all_busy 2 8000 8002 SOCK_STREAM AF_INET sys0 =
     (- 1, [], snd (snd (find_free_ports_range env_all_busy 2 8000 8002 SOCK_STREAM AF_INET sys0))) \<and>
   stderr (snd (snd (find_free_ports_range env_all_busy 2 8000 8002 SOCK_STREAM AF_INET sys0)))
     = stderr sys0 \<and>
   fst (find_free_ports env_all_busy 2 SOCK_STREAM AF_INET sys0) = - 1 \<and>
   stderr (snd (snd (find_free_ports env_all_busy 2 SOCK_STREAM AF_INET sys0)))
     = stderr sys0 @ [Perror ''fp: bind''] \<and>
   main env_no_socket [Opt_n 2] sys0 = (1, snd (main env_no_socket [Opt_n 2] sys0)) \<and>
   last (stderr (snd (main env_no_socket [Opt_n 2] sys0))) = Err_no_free_port"
proof -
  let ?a = "find_free_ports_range env_all_busy 2 8000 8002 SOCK_STREAM AF_INET sys0"
  let ?b = "find_free_ports env_all_busy 2 SOCK_STREAM AF_INET sys0"
  let ?m = "main env_no_socket [Opt_n 2] sys0"
  have a: "?a = (fst ?a, fst (snd ?a), snd (snd ?a))" and b: "?b = (fst ?b, fst (snd ?b), snd (snd ?b))"
    and m: "?m = (fst ?m, snd ?m)" by simp_all
  have ra: "fst ?a \<noteq> 0" and pa: "fst (snd ?a) = []" and rb: "fst ?b \<noteq> 0"
    and eb: "stderr (snd (snd ?b)) = stderr sys0 @ [Perror ''fp: bind'']"
    and tm: "trace (snd ?m) \<noteq> trace sys0" and cm: "fst ?m \<noteq> 0"
    by code_simp+
  from failure_signal_is_minus_one [where E = env_all_busy and count = 2 and lo = 8000 and hi = 8002
      and ty = SOCK_STREAM and fam = AF_INET and s = sys0 and rc = "fst ?a" and ports = "fst (snd ?a)"
      and s' = "snd (snd ?a)" and ?rc2.0 = "fst ?b" and ?ports2.0 = "fst (snd ?b)"
      and ?s2.0 = "snd (snd ?b)"] a b ra rb
  have one: "fst ?a = - 1" "stderr (snd (snd ?a)) = stderr sys0" "fst ?b = - 1" by blast+
  from failure_signal_is_minus_one [where E = env_no_socket and s = sys0 and argv = "[Opt_n 2]"
      and code = "fst ?m" and ?s3.0 = "snd ?m"] m tm cm
  have two: "fst ?m = 1" "last (stderr (snd ?m)) = Err_no_free_port" by blast+
  have "?a = (- 1, [], snd (snd ?a))" using a one(1) pa by metis
  moreover have "?m = (1, snd ?m)" using m two(1) by metis
  ultimately show ?thesis using one eb two by blast
qed

text \<open>
  Claim C7 as the specification states it fails.  Two range searches, one on a machine
  where no socket can be created (an error of the operating system), one on a machine
  where every port of the range is taken (the scan is exhausted), give the caller the same
  result, the same ports and the same output, and \<^verbatim>\<open>main\<close> ends both with the same
  status and the same message.
\<close>

theorem failure_signal_counterexample:
  "socket_calls (new_events sys0
      (snd (snd (find_free_ports_range env_no_socket 2 8000 8002 SOCK_STREAM AF_INET sys0)))) = [- 1] \<and>
   bind_results (new_events sys0
      (snd (snd (find_free_ports_range env_all_busy 2 8000 8002 SOCK_STREAM AF_INET sys0))))
      = [(8001, - 1), (8002, - 1), (8000, - 1)] \<and>
   fst (find_free_ports_range env_no_socket 2 8000 8002 SOCK_STREAM AF_INET sys0) = - 1 \<and>
   fst (find_free_ports_range env_all_busy 2 8000 8002 SOCK_STREAM AF_INET sys0) = - 1 \<and>
   fst (snd (find_free_ports_range env_no_socket 2 8000 8002 SOCK_STREAM AF_INET sys0)) =
   fst (snd (find_free_ports_range env_all_busy 2 8000 8002 SOCK_STREAM AF_INET sys0)) \<and>
   stderr (snd (snd (find_free_ports_range env_no_socket 2 8000 8002 SOCK_STREAM AF_INET sys0))) =
   stderr (snd (snd (find_free_ports_range env_all_busy 2 8000 8002 SOCK_STREAM AF_INET sys0))) \<and>
   fst (main env_no_socket [Opt_n 2, Opt_r (Some (8000, 8002))] sys0) =
   fst (main env_all_busy [Opt_n 2, Opt_r (Some (8000, 8002))] sys0) \<and>
   stderr (snd (main env_no_socket [Opt_n 2, Opt_r (Some (8000, 8002))] sys0)) =
   stderr (snd (main env_all_busy [Opt_n 2, Opt_r (Some (8000, 8002))] sys0)) \<and>
   stdout (snd (main env_no_socket [Opt_n 2, Opt_r (Some (8000, 8002))] sys0)) =
   stdout (snd (main env_all_busy [Opt_n 2, Opt_r (Some (8000, 8002))] sys0))"
  by code_simp

end
